theory Spec2Isabelle
  imports Main "HOL-Library.Sublist" "HOL-Library.AList" "HOL-Library.Char_ord"
    "HOL-Library.Word"
begin

section \<open>GLSLPostProcessor.cpp: text utilities\<close>

text \<open>
  A \<open>std::string\<close> and a \<open>std::string_view\<close> are modelled as \<^typ>\<open>string\<close>, a list
  of bytes. Reads that the C++ performs outside the bounds of the object are made
  explicit: the functions below return an \<open>error\<close> instead of a value there.
\<close>

datatype error = OutOfBounds | NullDeref | NoReturn

text \<open>
  \<open>s[i]\<close> on a \<open>std::string\<close>: positions below \<open>size()\<close> hold the bytes, position
  \<open>size()\<close> holds the terminating NUL, and anything beyond is outside the object.
\<close>

definition str_at :: "string \<Rightarrow> nat \<Rightarrow> char option" where
  "str_at s i =
     (if i < length s then Some (s ! i)
      else if i = length s then Some (CHR 0x00)
      else None)"

text \<open>
  \<open>codeline[i]\<close> on a \<open>std::string_view\<close>: the view is a window into the source
  string, so the position one past a line holds the newline that ended the line or the
  terminator of the source; the tests of the minifier compare it with a space or a
  semicolon only. \<open>None\<close> stands for that position.
\<close>

definition sv_at :: "string \<Rightarrow> nat \<Rightarrow> char option" where
  "sv_at codeline i = (if i < length codeline then Some (codeline ! i) else None)"

text \<open>\<open>find\<close>: the first position at or after \<open>n\<close> where \<open>pat\<close> occurs.\<close>

fun find_first :: "string \<Rightarrow> string \<Rightarrow> nat option" where
  "find_first pat [] = (if pat = [] then Some 0 else None)"
| "find_first pat (c # cs) =
     (if prefix pat (c # cs) then Some 0 else map_option Suc (find_first pat cs))"

definition find_str :: "string \<Rightarrow> string \<Rightarrow> nat \<Rightarrow> nat option" where
  "find_str s pat n =
     (if n \<le> length s then map_option (\<lambda>i. i + n) (find_first pat (drop n s)) else None)"

subsection \<open>shrinkString\<close>

text \<open>The first inner loop, \<open>while (s[cur] != '\n') { cur++; len++; }\<close>.\<close>

function scanLine :: "string \<Rightarrow> nat \<Rightarrow> error + nat" where
  "scanLine s cur =
     (case str_at s cur of
        None \<Rightarrow> Inl OutOfBounds
      | Some c \<Rightarrow> if c \<noteq> CHR 0x0A then scanLine s (cur + 1) else Inr cur)"
  by pat_completeness auto
termination
  by (relation "measure (\<lambda>(s, cur). Suc (length s) - cur)")
     (auto simp: str_at_def split: if_splits)

declare scanLine.simps [simp del]

text \<open>The second inner loop, \<open>while (s[cur] == '\n') cur++;\<close>.\<close>

function skipNewlines :: "string \<Rightarrow> nat \<Rightarrow> nat" where
  "skipNewlines s cur =
     (if str_at s cur = Some (CHR 0x0A) then skipNewlines s (cur + 1) else cur)"
  by pat_completeness auto
termination
  by (relation "measure (\<lambda>(s, cur). Suc (length s) - cur)")
     (auto simp: str_at_def split: if_splits)

declare skipNewlines.simps [simp del]

text \<open>\<open>s.find_first_not_of(" \t", pos)\<close>.\<close>

fun first_not_of :: "char list \<Rightarrow> string \<Rightarrow> nat option" where
  "first_not_of cs [] = None"
| "first_not_of cs (c # s) =
     (if c \<in> set cs then map_option Suc (first_not_of cs s) else Some 0)"

definition find_first_not_of :: "string \<Rightarrow> char list \<Rightarrow> nat \<Rightarrow> nat option" where
  "find_first_not_of s cs pos =
     (if pos \<le> length s then map_option (\<lambda>i. i + pos) (first_not_of cs (drop pos s))
      else None)"

text \<open>\<open>r.append(s, newPos, n)\<close>: the bytes of \<open>s\<close> from \<open>newPos\<close>, at most \<open>n\<close>.\<close>

definition substr :: "string \<Rightarrow> nat \<Rightarrow> nat \<Rightarrow> string" where
  "substr s pos n = take n (drop pos s)"

lemma scanLine_stop: "scanLine s cur = Inr e \<Longrightarrow> str_at s e = Some (CHR 0x0A)"
proof (induction s cur rule: scanLine.induct)
  case (1 s cur)
  from "1.prems" obtain c where c: "str_at s cur = Some c"
    by (subst (asm) scanLine.simps) (auto split: option.splits)
  show ?case
  proof (cases "c = CHR 0x0A")
    case True
    with c "1.prems" have "e = cur" by (subst (asm) scanLine.simps) simp
    with c True show ?thesis by simp
  next
    case False
    with c "1.prems" have "scanLine s (cur + 1) = Inr e"
      by (subst (asm) scanLine.simps) simp
    with "1.IH" [OF c False] show ?thesis .
  qed
qed

lemma scanLine_ge: "scanLine s cur = Inr e \<Longrightarrow> cur \<le> e \<and> e < length s"
proof (induction s cur rule: scanLine.induct)
  case (1 s cur)
  from "1.prems" obtain c where c: "str_at s cur = Some c"
    by (subst (asm) scanLine.simps) (auto split: option.splits)
  show ?case
  proof (cases "c = CHR 0x0A")
    case True
    with c "1.prems" have "e = cur" by (subst (asm) scanLine.simps) simp
    moreover from c True have "cur < length s"
      by (auto simp: str_at_def split: if_splits)
    ultimately show ?thesis by simp
  next
    case False
    with c "1.prems" have "scanLine s (cur + 1) = Inr e"
      by (subst (asm) scanLine.simps) simp
    with "1.IH" [OF c False] show ?thesis by simp
  qed
qed

lemma skipNewlines_ge: "cur \<le> skipNewlines s cur"
proof (induction s cur rule: skipNewlines.induct)
  case (1 s cur)
  show ?case
  proof (cases "str_at s cur = Some (CHR 0x0A)")
    case True
    with "1.IH" have "cur + 1 \<le> skipNewlines s (cur + 1)" by simp
    with True show ?thesis by (subst skipNewlines.simps) simp
  next
    case False
    then show ?thesis by (subst skipNewlines.simps) simp
  qed
qed

lemma skipNewlines_gt:
  "str_at s cur = Some (CHR 0x0A) \<Longrightarrow> cur < skipNewlines s cur"
  using skipNewlines_ge [of "cur + 1" s] by (subst skipNewlines.simps) simp

text \<open>
  The outer loop of \<open>shrinkString\<close>, with the cursor \<open>cur\<close> and the result \<open>r\<close> so far.
  \<open>len - (newPos - pos)\<close> is computed on \<open>size_t\<close>; when the first inner loop has
  stopped at a newline, \<open>newPos\<close> lies between \<open>pos\<close> and \<open>cur\<close>, so the difference
  does not wrap.
\<close>

function shrinkLoop :: "string \<Rightarrow> nat \<Rightarrow> string \<Rightarrow> error + string" where
  "shrinkLoop s cur r =
     (if cur < length s then
        (case scanLine s cur of
           Inl e \<Rightarrow> Inl e
         | Inr cur' \<Rightarrow>
             (let pos = cur;
                  len = cur' - cur;
                  newPos = (case find_first_not_of s [CHR '' '', CHR 0x09] pos of
                              None \<Rightarrow> pos | Some p \<Rightarrow> p);
                  r' = r @ substr s newPos (len - (newPos - pos)) @ [CHR 0x0A]
              in shrinkLoop s (skipNewlines s cur') r'))
      else Inr r)"
  by pat_completeness auto
termination
proof (relation "measure (\<lambda>(s, cur, r). length s - cur)", goal_cases)
  case 1
  show ?case by simp
next
  case (2 s cur r cur')
  then have le: "cur \<le> cur'" and lt: "cur' < length s"
    using scanLine_ge [of s cur cur'] by simp_all
  have "cur' \<le> skipNewlines s cur'" by (rule skipNewlines_ge)
  moreover have "str_at s cur' = Some (CHR 0x0A)"
    using 2 scanLine_stop [of s cur cur'] by simp
  then have "cur' < skipNewlines s cur'" by (rule skipNewlines_gt)
  ultimately show ?case using le lt by simp
qed

declare shrinkLoop.simps [simp del]

definition shrinkString :: "string \<Rightarrow> error + string" where
  "shrinkString s = shrinkLoop s 0 []"


subsection \<open>The line scanner of the minifier\<close>

definition isIdCharNondigit :: "char \<Rightarrow> bool" where
  "isIdCharNondigit c \<longleftrightarrow>
     c = CHR ''_'' \<or> (CHR ''a'' \<le> c \<and> c \<le> CHR ''z'') \<or> (CHR ''A'' \<le> c \<and> c \<le> CHR ''Z'')"

definition isIdChar :: "char \<Rightarrow> bool" where
  "isIdChar c \<longleftrightarrow> isIdCharNondigit c \<or> (CHR ''0'' \<le> c \<and> c \<le> CHR ''9'')"

text \<open>
  \<open>consumeIdentifier\<close>, \<open>consumeString\<close> and \<open>consumeArraySize\<close> move an index through a
  pointer; here they return the new index (\<open>None\<close> for \<open>false\<close>, where the index is left
  as it was). \<open>consumeIdentifier\<close> returns the identifier as well.
\<close>

definition consumeIdentifier :: "string \<Rightarrow> nat \<Rightarrow> (nat \<times> string) option" where
  "consumeIdentifier codeline pindex =
     (if pindex \<ge> length codeline then None
      else if \<not> isIdCharNondigit (codeline ! pindex) then None
      else (let n = length (takeWhile isIdChar (drop (pindex + 1) codeline));
                index = pindex + 1 + n
            in Some (index, substr codeline pindex (index - pindex))))"

definition consumeString :: "string \<Rightarrow> nat \<Rightarrow> string \<Rightarrow> nat option" where
  "consumeString codeline pindex s =
     (case find_str codeline s pindex of
        None \<Rightarrow> None
      | Some index \<Rightarrow> Some (index + length s))"

definition consumeArraySize :: "string \<Rightarrow> nat \<Rightarrow> nat" where
  "consumeArraySize codeline pindex =
     (if pindex \<ge> length codeline then pindex
      else if codeline ! pindex \<noteq> CHR ''['' then pindex
      else (let index = pindex + 1 + length (takeWhile (\<lambda>c. c \<noteq> CHR '']'') (drop (pindex + 1) codeline))
            in if index = length codeline then index else index + 1))"

subsection \<open>replaceAll\<close>

text \<open>\<open>result.replace(n, len, to)\<close>.\<close>

definition replace_at :: "string \<Rightarrow> nat \<Rightarrow> nat \<Rightarrow> string \<Rightarrow> string" where
  "replace_at result n len to = take n result @ to @ drop (n + len) result"

lemma find_first_bound: "find_first pat s = Some i \<Longrightarrow> i + length pat \<le> length s"
proof (induction s arbitrary: i)
  case Nil
  then show ?case by (simp split: if_splits)
next
  case (Cons c cs)
  show ?case
  proof (cases "prefix pat (c # cs)")
    case True
    with Cons.prems have "i = 0" by simp
    with prefix_length_le [OF True] show ?thesis by simp
  next
    case False
    with Cons.prems obtain j where "find_first pat cs = Some j" "i = Suc j" by auto
    with Cons.IH show ?thesis by simp
  qed
qed

lemma find_str_bound:
  "find_str s pat n = Some i \<Longrightarrow> n \<le> i \<and> i + length pat \<le> length s"
  by (auto simp: find_str_def split: if_splits dest!: find_first_bound)

text \<open>
  The loop of \<open>replaceAll\<close>, with the cursor \<open>n\<close>. With an empty \<open>from\<close> the C++ loop does
  not come to an end (\<open>find\<close> succeeds at every position and the text only grows): the
  model returns \<open>None\<close>, for no result.
\<close>

function replaceLoop :: "string \<Rightarrow> string \<Rightarrow> string \<Rightarrow> nat \<Rightarrow> string option" where
  "replaceLoop result from to n =
     (if from = [] then None
      else (case find_str result from n of
              None \<Rightarrow> Some result
            | Some i \<Rightarrow> replaceLoop (replace_at result i (length from) to) from to (i + length to)))"
  by pat_completeness auto
termination
proof (relation "measure (\<lambda>(result, from, to, n). length result - n)", goal_cases)
  case 1
  show ?case by simp
next
  case (2 result "from" to n i)
  then have "n \<le> i" and "i + length from \<le> length result"
    using find_str_bound [of result "from" n i] by simp_all
  moreover from 2 have "0 < length from" by simp
  ultimately have "length result - (length from + i) < length result - n" by arith
  then show ?case using \<open>i + length from \<le> length result\<close>
    by (simp add: replace_at_def add.commute)
qed

declare replaceLoop.simps [simp del]

definition replaceAll :: "string \<Rightarrow> string \<Rightarrow> string \<Rightarrow> string option" where
  "replaceAll result from to = replaceLoop result from to 0"


subsection \<open>minifyStructFields\<close>

text \<open>
  Splitting the source at each newline, with the cursor \<open>first\<close>; empty lines are left
  out, so every code line is non-empty.
\<close>

function codelinesFrom :: "string \<Rightarrow> nat \<Rightarrow> string list" where
  "codelinesFrom sv first =
     (if first < length sv then
        (case find_str sv [CHR 0x0A] first of
           None \<Rightarrow> [drop first sv]
         | Some second \<Rightarrow>
             (if first \<noteq> second then [substr sv first (second - first)] else [])
               @ codelinesFrom sv (second + 1))
      else [])"
  by pat_completeness auto
termination
proof (relation "measure (\<lambda>(sv, first). length sv - first)", goal_cases)
  case 1
  show ?case by simp
next
  case (2 sv first second)
  then have "first \<le> second" and "second + 1 \<le> length sv"
    using find_str_bound [of sv "[CHR 0x0A]" first second] by simp_all
  then show ?case by simp
qed

declare codelinesFrom.simps [simp del]

datatype parse_state = OUTSIDE | STRUCT_OPEN | STRUCT_DEFN

text \<open>
  A \<open>std::unordered_map<std::string, std::string>\<close> is a list of entries with distinct
  keys. \<open>m[k] = v\<close> is \<^const>\<open>AList.update\<close>; reading \<open>m[k]\<close> adds the entry
  \<open>(k, "")\<close> when the key is not there.
\<close>

type_synonym table = "(string \<times> string) list"

definition index_or_insert :: "table \<Rightarrow> string \<Rightarrow> string \<times> table" where
  "index_or_insert m k =
     (case map_of m k of Some v \<Rightarrow> (v, m) | None \<Rightarrow> ([], m @ [(k, [])]))"

record minify_state =
  state :: parse_state
  currentStruct :: string
  fields_vec :: "string list"
  fieldMapping :: table
  currentStructToName :: table

text \<open>
  The two passes parse a line by the same code. In state \<open>OUTSIDE\<close> a line is the header
  of a struct when \<open>"uniform "\<close> is found in it and an identifier follows up to the end
  of the line.
\<close>

definition matchHeader :: "string \<Rightarrow> string option" where
  "matchHeader codeline =
     (case consumeString codeline 0 ''uniform '' of
        None \<Rightarrow> None
      | Some index \<Rightarrow>
          (case consumeIdentifier codeline index of
             None \<Rightarrow> None
           | Some (index', typeId) \<Rightarrow>
               if index' = length codeline then Some typeId else None))"

definition structOpenNext :: "string \<Rightarrow> parse_state" where
  "structOpenNext codeline =
     (if sv_at codeline 0 = Some (CHR ''{'') \<and> length codeline = 1 then STRUCT_DEFN
      else OUTSIDE)"

text \<open>
  In state \<open>STRUCT_DEFN\<close> a line closes the struct (\<open>Close structName\<close>), declares a
  field (\<open>Field typeId fieldId\<close>) or is passed over.
\<close>

datatype defn_line = Close string | Field string string | Other

definition classifyDefnLine :: "string \<Rightarrow> defn_line" where
  "classifyDefnLine codeline =
     (case consumeString codeline 0 ''} '' of
        Some index \<Rightarrow>
          (case consumeIdentifier codeline index of
             None \<Rightarrow> Other
           | Some (index', structName) \<Rightarrow>
               (case consumeString codeline index' '';'' of
                  None \<Rightarrow> Other
                | Some index'' \<Rightarrow>
                    if index'' \<noteq> length codeline then Other else Close structName))
      | None \<Rightarrow>
          (case consumeIdentifier codeline 0 of
             None \<Rightarrow> Other
           | Some (index, typeId) \<Rightarrow>
               if sv_at codeline index \<noteq> Some (CHR '' '') then Other
               else (case consumeIdentifier codeline (index + 1) of
                       None \<Rightarrow> Other
                     | Some (index', fieldId) \<Rightarrow>
                         if sv_at codeline index' \<noteq> Some (CHR '';'') then Other
                         else if index' + 1 \<noteq> length codeline then Other
                         else Field typeId fieldId)))"

text \<open>The generator of the short names: \<open>generatedFieldName[0]++\<close>, or a new first letter.\<close>

fun nextFieldName :: "string \<Rightarrow> string" where
  "nextFieldName (c # cs) =
     (if c = CHR ''z'' then CHR ''a'' # c # cs
      else char_of (of_char c + (1 :: nat)) # cs)"

fun assignFields :: "string \<Rightarrow> string list \<Rightarrow> string \<Rightarrow> table \<Rightarrow> table" where
  "assignFields structNameS [] generatedFieldName fm = fm"
| "assignFields structNameS (field # rest) generatedFieldName fm =
     assignFields structNameS rest (nextFieldName generatedFieldName)
       (AList.update (structNameS @ ''.'' @ field) (structNameS @ ''.'' @ generatedFieldName) fm)"

text \<open>
  The values that \<open>generatedFieldName\<close> takes in the loop over the fields, and their
  closed form: the letter number \<open>i mod 26\<close>, followed by \<open>i div 26\<close> letters \<open>z\<close>.
\<close>

definition generatedNames :: "nat \<Rightarrow> string list" where
  "generatedNames n = map (\<lambda>i. (nextFieldName ^^ i) ''a'') [0..<n]"

definition shortName :: "nat \<Rightarrow> string" where
  "shortName i = char_of (97 + i mod 26) # replicate (i div 26) (CHR ''z'')"

text \<open>The first pass: one line of the loop that builds the remapping table.\<close>

definition scanStep :: "minify_state \<Rightarrow> string \<Rightarrow> minify_state" where
  "scanStep \<sigma> codeline =
     (case state \<sigma> of
        OUTSIDE \<Rightarrow>
          (case matchHeader codeline of
             None \<Rightarrow> \<sigma>
           | Some typeId \<Rightarrow> \<sigma>\<lparr>state := STRUCT_OPEN, currentStruct := typeId\<rparr>)
      | STRUCT_OPEN \<Rightarrow> \<sigma>\<lparr>state := structOpenNext codeline\<rparr>
      | STRUCT_DEFN \<Rightarrow>
          (case classifyDefnLine codeline of
             Close structNameS \<Rightarrow>
               \<sigma>\<lparr>state := OUTSIDE,
                 fields_vec := [],
                 fieldMapping := assignFields structNameS (fields_vec \<sigma>) ''a'' (fieldMapping \<sigma>),
                 currentStructToName :=
                   AList.update (currentStruct \<sigma>) structNameS (currentStructToName \<sigma>)\<rparr>
           | Field typeId fieldId \<Rightarrow> \<sigma>\<lparr>fields_vec := fields_vec \<sigma> @ [fieldId]\<rparr>
           | Other \<Rightarrow> \<sigma>))"

text \<open>
  The second pass. The entries of \<open>fieldMapping\<close> are visited in the order of the hash
  table, which C++ leaves open: \<open>order m\<close> is the sequence in which the entries of the
  table \<open>m\<close> are visited.
\<close>

fun replaceEach :: "table \<Rightarrow> string \<Rightarrow> string option" where
  "replaceEach [] newline = Some newline"
| "replaceEach (key # keys) newline =
     (case replaceAll newline (fst key) (snd key) of
        None \<Rightarrow> None
      | Some newline' \<Rightarrow> replaceEach keys newline')"

definition rewriteStep ::
  "(table \<Rightarrow> table) \<Rightarrow> minify_state \<Rightarrow> string \<Rightarrow> (minify_state \<times> string) option" where
  "rewriteStep order \<sigma> codeline =
     (case state \<sigma> of
        OUTSIDE \<Rightarrow>
          (case matchHeader codeline of
             Some typeId \<Rightarrow> Some (\<sigma>\<lparr>state := STRUCT_OPEN, currentStruct := typeId\<rparr>, codeline)
           | None \<Rightarrow> map_option (Pair \<sigma>) (replaceEach (order (fieldMapping \<sigma>)) codeline))
      | STRUCT_OPEN \<Rightarrow> Some (\<sigma>\<lparr>state := structOpenNext codeline\<rparr>, codeline)
      | STRUCT_DEFN \<Rightarrow>
          (case classifyDefnLine codeline of
             Close structName \<Rightarrow> Some (\<sigma>\<lparr>state := OUTSIDE\<rparr>, codeline)
           | Other \<Rightarrow> Some (\<sigma>, codeline)
           | Field typeId fieldId \<Rightarrow>
               (let (name, names) = index_or_insert (currentStructToName \<sigma>) (currentStruct \<sigma>);
                    key = name @ ''.'' @ fieldId;
                    (val, fm) = index_or_insert (fieldMapping \<sigma>) key;
                    fieldName = (case find_str val ''.'' 0 of
                                   None \<Rightarrow> val
                                 | Some i \<Rightarrow> drop (i + 1) val)
                in Some (\<sigma>\<lparr>fieldMapping := fm, currentStructToName := names\<rparr>,
                         typeId @ '' '' @ fieldName @ '';''))))"

fun rewriteLines ::
  "(table \<Rightarrow> table) \<Rightarrow> minify_state \<Rightarrow> string list \<Rightarrow> string \<Rightarrow> string option" where
  "rewriteLines order \<sigma> [] result = Some result"
| "rewriteLines order \<sigma> (codeline # rest) result =
     (case rewriteStep order \<sigma> codeline of
        None \<Rightarrow> None
      | Some (\<sigma>', newline) \<Rightarrow> rewriteLines order \<sigma>' rest (result @ newline @ [CHR 0x0A]))"

definition initial_state :: minify_state where
  "initial_state =
     \<lparr>state = OUTSIDE, currentStruct = [], fields_vec = [], fieldMapping = [],
      currentStructToName = []\<rparr>"

definition minifyStructFields :: "(table \<Rightarrow> table) \<Rightarrow> string \<Rightarrow> string option" where
  "minifyStructFields order source =
     (let codelines = codelinesFrom source 0;
          \<sigma> = foldl scanStep initial_state codelines
      in rewriteLines order (\<sigma>\<lparr>state := OUTSIDE\<rparr>) codelines [])"


subsection \<open>Source texts made of structs of the documented shape\<close>

text \<open>
  The statements about whole source texts speak of texts that are made of lines, each
  ended by a newline (\<open>joinLines\<close>); a line is plain when it is not empty and holds no
  newline. \<open>structBlock T inst tys fs\<close> is the struct of the comment above
  \<open>minifyStructFields\<close>: the line \<open>uniform T\<close>, an opening brace, one line
  \<open>type field;\<close> for each field, and the closing line \<open>} inst;\<close>. An identifier is a
  non-empty word of letters, digits and underscores that does not begin with a digit.
\<close>

definition joinLines :: "string list \<Rightarrow> string" where
  "joinLines ls = concat (map (\<lambda>l. l @ [CHR 0x0A]) ls)"

definition isIdentifier :: "string \<Rightarrow> bool" where
  "isIdentifier x \<longleftrightarrow> x \<noteq> [] \<and> isIdCharNondigit (hd x) \<and> list_all isIdChar x"

definition fieldDecl :: "string \<Rightarrow> string \<Rightarrow> string" where
  "fieldDecl ty f = ty @ '' '' @ f @ '';''"

definition structBlock :: "string \<Rightarrow> string \<Rightarrow> string list \<Rightarrow> string list \<Rightarrow> string list" where
  "structBlock T inst tys fs =
     [''uniform '' @ T, ''{''] @ map2 fieldDecl tys fs @ [''} '' @ inst @ '';'']"

definition plainLine :: "string \<Rightarrow> bool" where
  "plainLine l \<longleftrightarrow> l \<noteq> [] \<and> CHR 0x0A \<notin> set l"

text \<open>
  An iteration order of the hash table visits every entry of the table, and visits as
  many entries as the table has.
\<close>

definition visits_each_entry_once :: "(table \<Rightarrow> table) \<Rightarrow> bool" where
  "visits_each_entry_once order \<longleftrightarrow> (\<forall>m. set (order m) = set m \<and> length (order m) = length m)"

text \<open>
  What it means to replace all occurrences of \<open>from\<close> by \<open>to\<close>, written without
  the cursor of \<open>replaceAll\<close>: the text is read from left to right; where \<open>from\<close> begins at
  the position that is read, \<open>to\<close> is written and the reading goes on behind the
  occurrence; any other character is copied. What has been written is not read again.
  (An empty \<open>from\<close> replaces nothing here; \<open>replaceAll\<close> does not return on it.)
\<close>

function replaceEverywhere :: "string \<Rightarrow> string \<Rightarrow> string \<Rightarrow> string" where
  "replaceEverywhere from to s =
     (if from = [] \<or> s = [] then s
      else if prefix from s then to @ replaceEverywhere from to (drop (length from) s)
      else hd s # replaceEverywhere from to (tl s))"
  by pat_completeness auto
termination
  by (relation "measure (\<lambda>(from, to, s). length s)") auto

declare replaceEverywhere.simps [simp del]

text \<open>
  A line outside the structs after the second pass: for each entry of the table, in the
  order in which the entries are visited, every occurrence of the key in the line as it
  then stands is replaced by the value.
\<close>

definition rewriteUse :: "table \<Rightarrow> string \<Rightarrow> string" where
  "rewriteUse visited l = fold (\<lambda>kv. replaceEverywhere (fst kv) (snd kv)) visited l"

text \<open>
  A source text is described by the segments that its non-empty lines form, in order:
  \<^item> \<open>Plain l\<close>, a line that is not the header of a struct;
  \<^item> \<open>FalseStart h l\<close>, a line \<open>h\<close> that is a header (it ends with \<open>uniform\<close> and an
    identifier) but is followed by a line \<open>l\<close> that is not the opening brace;
  \<^item> \<open>Block T inst tys fs\<close>, a struct of the documented shape with the type name \<open>T\<close>,
    the instance name \<open>inst\<close> and fields of the types \<open>tys\<close> and names \<open>fs\<close>.

  \<open>linesOf\<close> gives the lines of the segments and \<open>sourceOf\<close> the text made of these
  lines. \<open>wellFormed\<close> says that a segment is what its constructor stands for.
\<close>

datatype segment =
    Plain string
  | FalseStart string string
  | Block string string "string list" "string list"

fun segLines :: "segment \<Rightarrow> string list" where
  "segLines (Plain l) = [l]"
| "segLines (FalseStart h l) = [h, l]"
| "segLines (Block T inst tys fs) = structBlock T inst tys fs"

definition linesOf :: "segment list \<Rightarrow> string list" where
  "linesOf segs = concat (map segLines segs)"

definition sourceOf :: "segment list \<Rightarrow> string" where
  "sourceOf segs = joinLines (linesOf segs)"

fun wellFormed :: "segment \<Rightarrow> bool" where
  "wellFormed (Plain l) \<longleftrightarrow> plainLine l \<and> matchHeader l = None"
| "wellFormed (FalseStart h l) \<longleftrightarrow>
     plainLine h \<and> matchHeader h \<noteq> None \<and> plainLine l \<and> l \<noteq> ''{''"
| "wellFormed (Block T inst tys fs) \<longleftrightarrow>
     isIdentifier T \<and> isIdentifier inst \<and> length tys = length fs \<and>
     list_all isIdentifier tys \<and> list_all isIdentifier fs"

fun typeNames :: "segment list \<Rightarrow> string list" where
  "typeNames [] = []"
| "typeNames (Block T inst tys fs # segs) = T # typeNames segs"
| "typeNames (Plain l # segs) = typeNames segs"
| "typeNames (FalseStart h l # segs) = typeNames segs"

fun instanceNames :: "segment list \<Rightarrow> string list" where
  "instanceNames [] = []"
| "instanceNames (Block T inst tys fs # segs) = inst # instanceNames segs"
| "instanceNames (Plain l # segs) = instanceNames segs"
| "instanceNames (FalseStart h l # segs) = instanceNames segs"

fun distinctFields :: "segment \<Rightarrow> bool" where
  "distinctFields (Block T inst tys fs) \<longleftrightarrow> distinct fs"
| "distinctFields (Plain l) \<longleftrightarrow> True"
| "distinctFields (FalseStart h l) \<longleftrightarrow> True"

text \<open>
  The first pass of \<open>minifyStructFields\<close> on a source text, and the table it builds on
  the segments of a text: at the closing line of each struct, in the order of the text,
  the loop of the source gives the fields of the struct their names.
  \<open>assignShortNames\<close> is the same table with the names in their closed form.
\<close>

definition firstPass :: "string \<Rightarrow> minify_state" where
  "firstPass source = foldl scanStep initial_state (codelinesFrom source 0)"

fun assignSegment :: "table \<Rightarrow> segment \<Rightarrow> table" where
  "assignSegment fm (Block T inst tys fs) = assignFields inst fs ''a'' fm"
| "assignSegment fm (Plain l) = fm"
| "assignSegment fm (FalseStart h l) = fm"

definition tableOf :: "segment list \<Rightarrow> table" where
  "tableOf segs = foldl assignSegment [] segs"

fun assignShortNames :: "table \<Rightarrow> segment \<Rightarrow> table" where
  "assignShortNames fm (Block T inst tys fs) =
     fold (\<lambda>(f, n). AList.update (inst @ ''.'' @ f) (inst @ ''.'' @ n))
       (zip fs (map shortName [0..<length fs])) fm"
| "assignShortNames fm (Plain l) = fm"
| "assignShortNames fm (FalseStart h l) = fm"

text \<open>
  The segments after the second pass. \<open>shortOf tbl inst f\<close> is the short name that the
  table \<open>tbl\<close> holds for the field \<open>f\<close> of the instance \<open>inst\<close>: the value of the key
  \<open>inst.f\<close> without its prefix \<open>inst.\<close>. A plain line is rewritten by the entries in the
  order \<open>visited\<close>; a false start is left as it is; the declarations of a struct take
  the short names of the table. \<open>renameSegment\<close> is the same with the names of a struct
  in their closed form, and \<open>staysPlain\<close> says that a plain line is not a header after
  it has been rewritten.
\<close>

definition shortOf :: "table \<Rightarrow> string \<Rightarrow> string \<Rightarrow> string" where
  "shortOf tbl inst f =
     (case map_of tbl (inst @ ''.'' @ f) of
        Some v \<Rightarrow> drop (length inst + 1) v
      | None \<Rightarrow> [])"

fun rewriteSegment :: "table \<Rightarrow> table \<Rightarrow> segment \<Rightarrow> segment" where
  "rewriteSegment tbl visited (Plain l) = Plain (rewriteUse visited l)"
| "rewriteSegment tbl visited (FalseStart h l) = FalseStart h l"
| "rewriteSegment tbl visited (Block T inst tys fs) = Block T inst tys (map (shortOf tbl inst) fs)"

definition minifiedSegments :: "(table \<Rightarrow> table) \<Rightarrow> segment list \<Rightarrow> segment list" where
  "minifiedSegments order segs = map (rewriteSegment (tableOf segs) (order (tableOf segs))) segs"

fun renameSegment :: "table \<Rightarrow> segment \<Rightarrow> segment" where
  "renameSegment visited (Plain l) = Plain (rewriteUse visited l)"
| "renameSegment visited (FalseStart h l) = FalseStart h l"
| "renameSegment visited (Block T inst tys fs) = Block T inst tys (map shortName [0..<length fs])"


text \<open>
  For the proofs: the instance that the first pass records for each type name, the
  updates of the table in the order in which the first pass makes them, and what the
  second pass has to find in the two tables when it comes to a struct.
\<close>

fun nameSegment :: "table \<Rightarrow> segment \<Rightarrow> table" where
  "nameSegment names (Block T inst tys fs) = AList.update T inst names"
| "nameSegment names (Plain l) = names"
| "nameSegment names (FalseStart h l) = names"

fun updatesOfSegment :: "segment \<Rightarrow> table" where
  "updatesOfSegment (Block T inst tys fs) =
     zip (map (\<lambda>f. inst @ ''.'' @ f) fs) (map (\<lambda>i. inst @ ''.'' @ shortName i) [0..<length fs])"
| "updatesOfSegment (Plain l) = []"
| "updatesOfSegment (FalseStart h l) = []"

definition updatesOf :: "segment list \<Rightarrow> table" where
  "updatesOf segs = concat (map updatesOfSegment segs)"

fun resolved :: "table \<Rightarrow> table \<Rightarrow> segment \<Rightarrow> bool" where
  "resolved tbl names (Block T inst tys fs) \<longleftrightarrow>
     map_of names T = Some inst \<and>
     list_all (\<lambda>f. map_of tbl (inst @ ''.'' @ f) = Some (inst @ ''.'' @ shortOf tbl inst f)) fs"
| "resolved tbl names (Plain l) \<longleftrightarrow> True"
| "resolved tbl names (FalseStart h l) \<longleftrightarrow> True"


definition two_structs :: "segment list" where
  "two_structs =
     [Plain ''precision mediump float;'',
      Block ''Light'' ''lightBlock'' [''float'', ''vec3''] [''intensity'', ''color''],
      FalseStart ''uniform sampler2D'' ''tex;'',
      Block ''Fog'' ''fog'' [''vec4'', ''float''] [''color'', ''density''],
      Plain ''void main(){ x = lightBlock.intensity * lightBlock.color.r + fog.density * fog.color.a * fog.density; }'']"


definition three_structs_pre :: "segment list" where
  "three_structs_pre = [Block ''Fog'' ''fog'' [''vec4'', ''float''] [''color'', ''density'']]"

definition three_structs_post :: "segment list" where
  "three_structs_post =
     [Plain ''void main(){ x = lightBlock.intensity * lightBlock.color.r; }'',
      Block ''Frame'' ''frame'' [''float''] [''time'']]"


section \<open>GLSLPostProcessor.cpp: the optimization profiles\<close>

datatype Optimization = NONE | PREPROCESSOR | SIZE | PERFORMANCE

datatype ShaderModel = UNKNOWN | GL_ES_30 | GL_CORE_41

datatype ShaderType = VERTEX | FRAGMENT

datatype TargetApi = OPENGL | VULKAN

datatype EShLanguage = EShLangVertex | EShLangFragment

text \<open>
  The fields of \<open>GLSLPostProcessor::Config\<close> that the file reads;
  \<open>subpassInputToColorLocation\<close> is \<open>config.glsl.subpassInputToColorLocation\<close>.
\<close>

record Config =
  shaderType :: ShaderType
  shaderModel :: ShaderModel
  subpassInputToColorLocation :: "(nat \<times> nat) list"

text \<open>
  A pass of the SPIR-V optimizer, named after its \<open>Create...Pass\<close> function; the argument
  of \<open>ScalarReplacementPass\<close> is \<open>None\<close> where the call gives none.
\<close>

datatype pass =
    WrapOpKillPass | DeadBranchElimPass | MergeReturnPass | InlineExhaustivePass
  | AggressiveDCEPass | PrivateToLocalPass | LocalSingleBlockLoadStoreElimPass
  | LocalSingleStoreElimPass | ScalarReplacementPass "nat option"
  | LocalAccessChainConvertPass | LocalMultiStoreElimPass | CCPPass
  | RedundancyEliminationPass | CombineAccessChainsPass | SimplificationPass
  | VectorDCEPass | DeadInsertElimPass | IfConversionPass | CopyPropagateArraysPass
  | ReduceLoadSizePass | BlockMergePass | EliminateDeadFunctionsPass
  | LoopUnrollPass bool | CFGCleanupPass

text \<open>An optimizer is the list of the passes registered with it, in order.\<close>

type_synonym optimizer = "pass list"

definition registerPerformancePasses :: "optimizer \<Rightarrow> Config \<Rightarrow> optimizer" where
  "registerPerformancePasses optimizer config =
     optimizer
       @ [WrapOpKillPass, DeadBranchElimPass]
       @ (if shaderModel config \<noteq> GL_CORE_41 then [MergeReturnPass] else [])
       @ [InlineExhaustivePass, AggressiveDCEPass, PrivateToLocalPass,
          LocalSingleBlockLoadStoreElimPass, LocalSingleStoreElimPass, AggressiveDCEPass,
          ScalarReplacementPass None, LocalAccessChainConvertPass,
          LocalSingleBlockLoadStoreElimPass, LocalSingleStoreElimPass, AggressiveDCEPass,
          LocalMultiStoreElimPass, AggressiveDCEPass, CCPPass, AggressiveDCEPass,
          RedundancyEliminationPass, CombineAccessChainsPass, SimplificationPass,
          VectorDCEPass, DeadInsertElimPass, DeadBranchElimPass, SimplificationPass,
          IfConversionPass, CopyPropagateArraysPass, ReduceLoadSizePass, AggressiveDCEPass,
          BlockMergePass, RedundancyEliminationPass, DeadBranchElimPass, BlockMergePass,
          SimplificationPass]"

definition registerSizePasses :: "optimizer \<Rightarrow> Config \<Rightarrow> optimizer" where
  "registerSizePasses optimizer config =
     optimizer
       @ [WrapOpKillPass, DeadBranchElimPass]
       @ (if shaderModel config \<noteq> GL_CORE_41 then [MergeReturnPass] else [])
       @ [InlineExhaustivePass, EliminateDeadFunctionsPass, PrivateToLocalPass,
          ScalarReplacementPass (Some 0), LocalMultiStoreElimPass, CCPPass,
          LoopUnrollPass True, DeadBranchElimPass, SimplificationPass,
          ScalarReplacementPass (Some 0), LocalSingleStoreElimPass, IfConversionPass,
          SimplificationPass, AggressiveDCEPass, DeadBranchElimPass, BlockMergePass,
          LocalAccessChainConvertPass, LocalSingleBlockLoadStoreElimPass, AggressiveDCEPass,
          CopyPropagateArraysPass, VectorDCEPass, DeadInsertElimPass,
          LocalSingleStoreElimPass, BlockMergePass, LocalMultiStoreElimPass,
          RedundancyEliminationPass, SimplificationPass, AggressiveDCEPass, CFGCleanupPass]"

definition createOptimizer :: "Optimization \<Rightarrow> Config \<Rightarrow> optimizer" where
  "createOptimizer optimization config =
     (if optimization = SIZE then registerSizePasses [] config
      else if optimization = PERFORMANCE then registerPerformancePasses [] config
      else [])"

definition shaderVersionFromModel :: "ShaderModel \<Rightarrow> nat" where
  "shaderVersionFromModel model =
     (case model of UNKNOWN \<Rightarrow> 300 | GL_ES_30 \<Rightarrow> 300 | GL_CORE_41 \<Rightarrow> 410)"

section \<open>GLSLPostProcessor.cpp: the pipeline\<close>

type_synonym SpirvBlob = "32 word list"

datatype Precision = Mediump | Highp

record glsl_options =
  es :: bool
  version :: nat
  enable_420pack_extension :: bool
  default_float_precision :: Precision
  default_int_precision :: Precision

datatype Platform = iOS | macOS

record msl_options =
  platform :: Platform
  msl_version :: "nat \<times> nat"
  use_framebuffer_fetch_subpasses :: bool

text \<open>
  What a call leaves behind besides its outputs: the lines written to the log and the
  calls of the external compilers, in the order in which they happen.
\<close>

datatype event =
    LogError string | LogInfo string
  | FrontEndParse | FrontEndLink | FrontEndPreprocess | LowerToSpirv
  | OptimizerRun "pass list" | RemapDCE | CompileGLSL | CompileMSL

text \<open>
  The libraries the file calls (glslang, SPIRV-Tools, SPIRV-Cross) are parameters of the
  model, one function for each call. \<open>fe_GlslangToSpv\<close> writes into a vector that
  the caller passes: its last argument is the content of the vector before the call, its
  result the content after it. \<open>opt_Run\<close> returns the flag of \<open>Optimizer::Run\<close> and the
  content of the blob after the call. \<open>table_order\<close> is the iteration order of the hash
  table of the minifier.
\<close>

record environment =
  fe_parse :: "string \<Rightarrow> Config \<Rightarrow> TargetApi \<Rightarrow> Optimization \<Rightarrow> bool"
  fe_link :: "string \<Rightarrow> Config \<Rightarrow> TargetApi \<Rightarrow> bool"
  fe_infoLog :: "string \<Rightarrow> string"
  fe_preprocess :: "string \<Rightarrow> Config \<Rightarrow> TargetApi \<Rightarrow> bool \<times> string"
  fe_GlslangToSpv :: "string \<Rightarrow> EShLanguage \<Rightarrow> bool \<Rightarrow> SpirvBlob \<Rightarrow> SpirvBlob"
  opt_Run :: "pass list \<Rightarrow> SpirvBlob \<Rightarrow> bool \<times> SpirvBlob"
  opt_remap :: "SpirvBlob \<Rightarrow> SpirvBlob"
  cross_compileGLSL :: "SpirvBlob \<Rightarrow> glsl_options \<Rightarrow> (nat \<times> nat) list \<Rightarrow> string"
  cross_compileMSL :: "SpirvBlob \<Rightarrow> msl_options \<Rightarrow> string"
  table_order :: "table \<Rightarrow> table"

text \<open>The members of the post-processor that are set when it is constructed.\<close>

record GLSLPostProcessor =
  mOptimization :: Optimization
  mPrintShaders :: bool
  mGenerateDebugInfo :: bool

text \<open>
  The three output pointers and the log. A pointer is \<open>None\<close> when it is null, and
  \<open>Some v\<close> when it points to an object that holds \<open>v\<close>.
\<close>

record run_state =
  mGlslOutput :: "string option"
  mSpirvOutput :: "SpirvBlob option"
  mMslOutput :: "string option"
  events :: "event list"

definition emit :: "event list \<Rightarrow> run_state \<Rightarrow> run_state" where
  "emit evs st = st\<lparr>events := events st @ evs\<rparr>"

definition mslOptionsOf :: "Config \<Rightarrow> msl_options" where
  "mslOptionsOf config =
     \<lparr>platform = (if shaderModel config = GL_ES_30 then iOS else macOS),
      msl_version = (1, 1),
      use_framebuffer_fetch_subpasses = (shaderModel config = GL_ES_30)\<rparr>"

text \<open>\<open>SpvToMsl\<close> reads \<open>*spirv\<close> and returns the text it stores in \<open>*outMsl\<close>.\<close>

definition SpvToMsl :: "environment \<Rightarrow> SpirvBlob option \<Rightarrow> Config \<Rightarrow> error + string" where
  "SpvToMsl env spirv config =
     (case spirv of
        None \<Rightarrow> Inl NullDeref
      | Some blob \<Rightarrow> shrinkString (cross_compileMSL env blob (mslOptionsOf config)))"

text \<open>\<open>optimizeSpirv\<close> returns the blob as it leaves it, with what it logged and called.\<close>

definition optimizeSpirv :: "environment \<Rightarrow> optimizer \<Rightarrow> SpirvBlob \<Rightarrow> SpirvBlob \<times> event list" where
  "optimizeSpirv env optimizer spirv =
     (case opt_Run env optimizer spirv of
        (False, spirv') \<Rightarrow>
          (spirv', [OptimizerRun optimizer, LogError ''SPIR-V optimizer pass failed''])
      | (True, spirv') \<Rightarrow> (opt_remap env spirv', [OptimizerRun optimizer, RemapDCE]))"

definition glslOptionsOf :: "Config \<Rightarrow> glsl_options" where
  "glslOptionsOf config =
     (let isEs = (shaderModel config = GL_ES_30);
          ver = shaderVersionFromModel (shaderModel config)
      in \<lparr>es = isEs, version = ver, enable_420pack_extension = (ver \<ge> 420),
          default_float_precision = (if isEs then Mediump else Highp),
          default_int_precision = (if isEs then Mediump else Highp)\<rparr>)"

definition fullOptimization ::
  "environment \<Rightarrow> GLSLPostProcessor \<Rightarrow> EShLanguage \<Rightarrow> string \<Rightarrow> Config \<Rightarrow> run_state
    \<Rightarrow> error + run_state" where
  "fullOptimization env self mShLang tShader config st =
     (let spirv0 = fe_GlslangToSpv env tShader mShLang (mGenerateDebugInfo self) [];
          optimizer = createOptimizer (mOptimization self) config;
          (spirv, evs) = optimizeSpirv env optimizer spirv0;
          st1 = emit (LowerToSpirv # evs) st;
          st2 = (if mSpirvOutput st1 \<noteq> None then st1\<lparr>mSpirvOutput := Some spirv\<rparr> else st1)
      in (case (if mMslOutput st2 \<noteq> None
                then map_sum id (\<lambda>msl. emit [CompileMSL] (st2\<lparr>mMslOutput := Some msl\<rparr>))
                       (SpvToMsl env (Some spirv) config)
                else Inr st2) of
            Inl e \<Rightarrow> Inl e
          | Inr st3 \<Rightarrow>
              Inr (if mGlslOutput st3 \<noteq> None
                   then emit [CompileGLSL]
                          (st3\<lparr>mGlslOutput :=
                                 Some (cross_compileGLSL env spirv (glslOptionsOf config)
                                         (if mShLang = EShLangFragment \<and> es (glslOptionsOf config)
                                          then subpassInputToColorLocation config else []))\<rparr>)
                   else st3)))"

definition preprocessOptimization ::
  "environment \<Rightarrow> GLSLPostProcessor \<Rightarrow> EShLanguage \<Rightarrow> string \<Rightarrow> Config \<Rightarrow> run_state
    \<Rightarrow> error + run_state" where
  "preprocessOptimization env self mShLang tShader config st =
     (let targetApi = (if mSpirvOutput st \<noteq> None then VULKAN else OPENGL);
          (ok, glsl) = fe_preprocess env tShader config targetApi;
          st1 = emit (FrontEndPreprocess # (if \<not> ok then [LogError (fe_infoLog env tShader)] else [])) st;
          st2 = (case mSpirvOutput st1 of
                   Some old \<Rightarrow>
                     (let ok' = fe_parse env glsl config targetApi (mOptimization self);
                          linkOk = fe_link env glsl config targetApi
                      in if \<not> ok' \<or> \<not> linkOk
                         then emit [FrontEndParse, FrontEndLink, LogError (fe_infoLog env glsl)] st1
                         else emit [FrontEndParse, FrontEndLink, LowerToSpirv]
                                (st1\<lparr>mSpirvOutput :=
                                       Some (fe_GlslangToSpv env glsl mShLang
                                               (mGenerateDebugInfo self) old)\<rparr>))
                 | None \<Rightarrow> st1)
      in (case (if mMslOutput st2 \<noteq> None
                then map_sum id (\<lambda>msl. emit [CompileMSL] (st2\<lparr>mMslOutput := Some msl\<rparr>))
                       (SpvToMsl env (mSpirvOutput st2) config)
                else Inr st2) of
            Inl e \<Rightarrow> Inl e
          | Inr st3 \<Rightarrow>
              Inr (if mGlslOutput st3 \<noteq> None then st3\<lparr>mGlslOutput := Some glsl\<rparr> else st3)))"

text \<open>
  The end of \<open>process\<close>: the shading-language text, when it is asked for, is compacted
  and minified.
\<close>

definition postProcessGlsl :: "environment \<Rightarrow> GLSLPostProcessor \<Rightarrow> run_state \<Rightarrow> error + run_state" where
  "postProcessGlsl env self st =
     (case mGlslOutput st of
        None \<Rightarrow> Inr st
      | Some glsl \<Rightarrow>
          (case shrinkString glsl of
             Inl e \<Rightarrow> Inl e
           | Inr shrunk \<Rightarrow>
               (case minifyStructFields (table_order env) shrunk of
                  None \<Rightarrow> Inl NoReturn
                | Some minified \<Rightarrow>
                    Inr (emit (if mPrintShaders self then [LogInfo minified] else [])
                           (st\<lparr>mGlslOutput := Some minified\<rparr>)))))"

text \<open>
  \<open>process\<close> after its fast exit: the front end is run, then the branch of the
  optimization level, then the post-processing of the text. \<open>st\<close> holds the three
  output pointers as the caller passed them.
\<close>

definition process_compile ::
  "environment \<Rightarrow> GLSLPostProcessor \<Rightarrow> string \<Rightarrow> Config \<Rightarrow> run_state
    \<Rightarrow> error + bool \<times> run_state" where
  "process_compile env self inputShader config st =
     (let targetApi = (if mSpirvOutput st \<noteq> None then VULKAN else OPENGL);
          mShLang = (if shaderType config = VERTEX then EShLangVertex else EShLangFragment)
      in if \<not> fe_parse env inputShader config targetApi (mOptimization self)
         then Inr (False, emit [FrontEndParse, LogError (fe_infoLog env inputShader)] st)
         else if \<not> fe_link env inputShader config targetApi
         then Inr (False, emit [FrontEndParse, FrontEndLink, LogError (fe_infoLog env inputShader)] st)
         else
           (let st1 = emit [FrontEndParse, FrontEndLink] st in
            case (case mOptimization self of
                    NONE \<Rightarrow>
                      (case mSpirvOutput st1 of
                         Some old \<Rightarrow>
                           (let st2 = emit [LowerToSpirv]
                                        (st1\<lparr>mSpirvOutput :=
                                               Some (fe_GlslangToSpv env inputShader mShLang
                                                       (mGenerateDebugInfo self) old)\<rparr>)
                            in if mMslOutput st2 \<noteq> None
                               then map_sum id (\<lambda>msl. emit [CompileMSL] (st2\<lparr>mMslOutput := Some msl\<rparr>))
                                      (SpvToMsl env (mSpirvOutput st2) config)
                               else Inr st2)
                       | None \<Rightarrow>
                           Inr (emit [LogError ''GLSL post-processor invoked with optimization level NONE''] st1))
                  | PREPROCESSOR \<Rightarrow> preprocessOptimization env self mShLang inputShader config st1
                  | SIZE \<Rightarrow> fullOptimization env self mShLang inputShader config st1
                  | PERFORMANCE \<Rightarrow> fullOptimization env self mShLang inputShader config st1) of
              Inl e \<Rightarrow> Inl e
            | Inr st' \<Rightarrow> map_sum id (Pair True) (postProcessGlsl env self st')))"

definition process ::
  "environment \<Rightarrow> GLSLPostProcessor \<Rightarrow> string \<Rightarrow> Config
    \<Rightarrow> string option \<Rightarrow> SpirvBlob option \<Rightarrow> string option \<Rightarrow> error + bool \<times> run_state" where
  "process env self inputShader config outputGlsl outputSpirv outputMsl =
     (let targetApi = (if outputSpirv \<noteq> None then VULKAN else OPENGL);
          st = \<lparr>mGlslOutput = outputGlsl, mSpirvOutput = outputSpirv, mMslOutput = outputMsl,
                events = []\<rparr>
      in if targetApi = OPENGL \<and> mOptimization self = NONE then
           (case outputGlsl of
              None \<Rightarrow> Inl NullDeref
            | Some _ \<Rightarrow>
                Inr (True, emit (if mPrintShaders self then [LogInfo inputShader] else [])
                             (st\<lparr>mGlslOutput := Some inputShader\<rparr>)))
         else process_compile env self inputShader config st)"


subsection \<open>A concrete environment\<close>

text \<open>
  The examples below run the pipeline with fixed stand-ins for the libraries: a front end
  that accepts every shader, a lowering that writes the words \<open>1, 2, 3\<close>, an optimizer
  that appends \<open>4\<close> and succeeds or fails as \<open>optimizerOk\<close> says, a remapper that
  appends \<open>5\<close>, and cross-compilers that return a fixed text.
\<close>

definition stub_env :: "bool \<Rightarrow> environment" where
  "stub_env optimizerOk =
     \<lparr>fe_parse = (\<lambda>src config api opt. True),
      fe_link = (\<lambda>src config api. True),
      fe_infoLog = (\<lambda>src. ''info''),
      fe_preprocess = (\<lambda>src config api. (True, src)),
      fe_GlslangToSpv = (\<lambda>src lang dbg old. old @ [1, 2, 3]),
      opt_Run = (\<lambda>passes spirv. (optimizerOk, spirv @ [4])),
      opt_remap = (\<lambda>spirv. spirv @ [5]),
      cross_compileGLSL = (\<lambda>spirv opts remap. ''void main(){}\<newline>''),
      cross_compileMSL = (\<lambda>spirv opts. ''kernel void main0(){}\<newline>''),
      table_order = (\<lambda>m. m)\<rparr>"

definition stub_config :: Config where
  "stub_config =
     \<lparr>shaderType = FRAGMENT, shaderModel = GL_ES_30, subpassInputToColorLocation = []\<rparr>"

definition stub_processor :: "Optimization \<Rightarrow> GLSLPostProcessor" where
  "stub_processor level =
     \<lparr>mOptimization = level, mPrintShaders = False, mGenerateDebugInfo = False\<rparr>"

section \<open>Properties of the optimization profiles\<close>

text \<open>
  C4. For every shader model, the size profile and the performance profile both begin
  with the kill-wrapping pass and the dead-branch-elimination pass; the merge-return pass
  is the third pass of a profile exactly when the shader model is not \<open>GL_CORE_41\<close>, and
  for \<open>GL_CORE_41\<close> it does not occur in either profile at all.
\<close>

theorem profiles_prefix_and_merge_return:
  "take 2 (createOptimizer SIZE config) = [WrapOpKillPass, DeadBranchElimPass]
   \<and> take 2 (createOptimizer PERFORMANCE config) = [WrapOpKillPass, DeadBranchElimPass]
   \<and> (createOptimizer SIZE config ! 2 = MergeReturnPass) = (shaderModel config \<noteq> GL_CORE_41)
   \<and> (createOptimizer PERFORMANCE config ! 2 = MergeReturnPass) = (shaderModel config \<noteq> GL_CORE_41)
   \<and> (MergeReturnPass \<in> set (createOptimizer SIZE config)) = (shaderModel config \<noteq> GL_CORE_41)
   \<and> (MergeReturnPass \<in> set (createOptimizer PERFORMANCE config)) = (shaderModel config \<noteq> GL_CORE_41)"
  by (simp add: createOptimizer_def registerSizePasses_def registerPerformancePasses_def)

section \<open>Properties of the pipeline\<close>

text \<open>
  C3. With optimization level \<open>NONE\<close>, a shading-language output and no IR output,
  \<open>process\<close> returns \<open>true\<close> and stores the input text unchanged in the shading-language
  output. No external compiler is called: the only event a call can leave is the echo of
  the text to the log, when printing is switched on. (The code looks at the IR pointer
  only, so the secondary-language pointer may be anything; it is left as it was.)
\<close>

theorem process_none_glsl_only_fast_exit:
  "mOptimization self = NONE \<Longrightarrow>
   process env self inputShader config (Some old) None outputMsl =
     Inr (True, \<lparr>mGlslOutput = Some inputShader, mSpirvOutput = None, mMslOutput = outputMsl,
                 events = (if mPrintShaders self then [LogInfo inputShader] else [])\<rparr>)"
  by (simp add: process_def emit_def)

theorem process_none_glsl_only_fast_exit_witness:
  "mOptimization (stub_processor NONE) = NONE
   \<and> process (stub_env True) (stub_processor NONE) ''void main(){}'' stub_config
        (Some ''old'') None None =
      Inr (True, \<lparr>mGlslOutput = Some ''void main(){}'', mSpirvOutput = None,
                  mMslOutput = None, events = []\<rparr>)"
  using process_none_glsl_only_fast_exit
          [of "stub_processor NONE" "stub_env True" "''void main(){}''" stub_config "''old''" None]
  by (simp add: stub_processor_def)

text \<open>
  At level \<open>NONE\<close> with a null IR pointer every call takes the fast exit, whatever the
  other two pointers are. The branch of \<open>process_compile\<close> for the level \<open>NONE\<close>
  without an IR output, which logs
  \<open>GLSL post-processor invoked with optimization level NONE\<close>, is therefore never
  reached from \<open>process\<close>.
\<close>

lemma process_none_without_ir_takes_fast_exit:
  "mOptimization self = NONE \<Longrightarrow>
   process env self inputShader config outputGlsl None outputMsl =
     (case outputGlsl of
        None \<Rightarrow> Inl NullDeref
      | Some old \<Rightarrow>
          Inr (True, \<lparr>mGlslOutput = Some inputShader, mSpirvOutput = None,
                      mMslOutput = outputMsl,
                      events = (if mPrintShaders self then [LogInfo inputShader] else [])\<rparr>))"
  by (simp add: process_def emit_def split: option.splits)

section \<open>Properties of the text utilities\<close>

text \<open>
  \<open>shrinkString\<close> returns exactly on the texts that are empty or end with a newline; on
  any other text the first inner loop moves the cursor past the end of the string.
\<close>

lemma scanLine_error: "scanLine s cur = Inl e \<Longrightarrow> e = OutOfBounds"
proof (induction s cur rule: scanLine.induct)
  case (1 s cur)
  show ?case
  proof (cases "str_at s cur")
    case None
    with "1.prems" show ?thesis by (subst (asm) scanLine.simps) simp
  next
    case (Some c)
    show ?thesis
    proof (cases "c = CHR 0x0A")
      case True
      with Some "1.prems" show ?thesis by (subst (asm) scanLine.simps) simp
    next
      case False
      with Some "1.prems" have "scanLine s (cur + 1) = Inl e"
        by (subst (asm) scanLine.simps) simp
      with "1.IH" [OF Some False] show ?thesis .
    qed
  qed
qed

lemma scanLine_finds:
  "cur \<le> j \<Longrightarrow> j < length s \<Longrightarrow> s ! j = CHR 0x0A \<Longrightarrow> \<exists>e. scanLine s cur = Inr e"
proof (induction "j - cur" arbitrary: cur)
  case 0
  then have "cur = j" by simp
  with 0 have "str_at s cur = Some (CHR 0x0A)" by (simp add: str_at_def)
  then show ?case by (subst scanLine.simps) simp
next
  case (Suc n)
  then have lt: "cur < length s" by simp
  show ?case
  proof (cases "s ! cur = CHR 0x0A")
    case True
    with lt have "str_at s cur = Some (CHR 0x0A)" by (simp add: str_at_def)
    then show ?thesis by (subst scanLine.simps) simp
  next
    case False
    from Suc have "n = j - (cur + 1)" "cur + 1 \<le> j" by simp_all
    from Suc.hyps(1) [OF this Suc.prems(2,3)] obtain e where "scanLine s (cur + 1) = Inr e" ..
    with False lt show ?thesis by (subst scanLine.simps) (simp add: str_at_def)
  qed
qed

lemma skipNewlines_le:
  "cur \<le> j \<Longrightarrow> j < length s \<Longrightarrow> s ! j \<noteq> CHR 0x0A \<Longrightarrow> skipNewlines s cur \<le> j"
proof (induction s cur rule: skipNewlines.induct)
  case (1 s cur)
  show ?case
  proof (cases "str_at s cur = Some (CHR 0x0A)")
    case True
    with "1.prems" have "cur \<noteq> j" by (auto simp: str_at_def)
    with "1.prems" have "cur + 1 \<le> j" by simp
    from "1.IH" [OF True this "1.prems"(2,3)] True show ?thesis
      by (subst skipNewlines.simps) simp
  next
    case False
    with "1.prems" show ?thesis by (subst skipNewlines.simps) simp
  qed
qed

lemma shrinkLoop_returns:
  "s \<noteq> [] \<Longrightarrow> last s = CHR 0x0A \<Longrightarrow> \<exists>r'. shrinkLoop s cur r = Inr r'"
proof (induction s cur r rule: shrinkLoop.induct)
  case (1 s cur r)
  show ?case
  proof (cases "cur < length s")
    case False
    then show ?thesis by (subst shrinkLoop.simps) simp
  next
    case True
    from "1.prems" have "s ! (length s - 1) = CHR 0x0A" by (simp add: last_conv_nth)
    with True have "\<exists>e. scanLine s cur = Inr e"
      by (intro scanLine_finds [of cur "length s - 1"]) simp_all
    then obtain cur' where sc: "scanLine s cur = Inr cur'" ..
    from "1.IH" [OF True sc refl refl refl refl "1.prems"] obtain r' where
      "shrinkLoop s (skipNewlines s cur')
         (r @ substr s (case find_first_not_of s [CHR '' '', CHR 0x09] cur of None \<Rightarrow> cur | Some p \<Rightarrow> p)
                (cur' - cur - ((case find_first_not_of s [CHR '' '', CHR 0x09] cur of None \<Rightarrow> cur | Some p \<Rightarrow> p) - cur))
            @ [CHR 0x0A]) = Inr r'" ..
    with True sc show ?thesis by (subst shrinkLoop.simps) (simp add: Let_def)
  qed
qed

lemma shrinkLoop_runs_past_end:
  "s \<noteq> [] \<Longrightarrow> last s \<noteq> CHR 0x0A \<Longrightarrow> cur < length s \<Longrightarrow> shrinkLoop s cur r = Inl OutOfBounds"
proof (induction s cur r rule: shrinkLoop.induct)
  case (1 s cur r)
  from "1.prems" have lastc: "s ! (length s - 1) \<noteq> CHR 0x0A" by (simp add: last_conv_nth)
  show ?case
  proof (cases "scanLine s cur")
    case (Inl e)
    with scanLine_error [OF Inl] "1.prems"(3) show ?thesis
      by (subst shrinkLoop.simps) simp
  next
    case (Inr cur')
    from scanLine_ge [OF Inr] have b: "cur \<le> cur'" "cur' < length s" by simp_all
    from scanLine_stop [OF Inr] b(2) have "s ! cur' = CHR 0x0A" by (simp add: str_at_def)
    with lastc have "cur' \<noteq> length s - 1" by auto
    with b(2) have "cur' \<le> length s - 1" by simp
    from skipNewlines_le [OF this _ lastc] "1.prems"(1)
    have "skipNewlines s cur' < length s" by (cases s) auto
    from "1.IH" [OF "1.prems"(3) Inr refl refl refl refl "1.prems"(1,2) this]
    show ?thesis using "1.prems"(3) Inr by (subst shrinkLoop.simps) (simp add: Let_def)
  qed
qed

lemma shrinkString_returns:
  "s = [] \<or> last s = CHR 0x0A \<Longrightarrow> \<exists>r. shrinkString s = Inr r"
proof (cases "s = []")
  case True
  then show ?thesis unfolding shrinkString_def by (subst shrinkLoop.simps) simp
next
  case False
  assume "s = [] \<or> last s = CHR 0x0A"
  with False show ?thesis unfolding shrinkString_def by (intro shrinkLoop_returns) simp_all
qed

lemma shrinkString_runs_past_end:
  "s \<noteq> [] \<Longrightarrow> last s \<noteq> CHR 0x0A \<Longrightarrow> shrinkString s = Inl OutOfBounds"
  unfolding shrinkString_def by (rule shrinkLoop_runs_past_end) simp_all

text \<open>
  C10. The two statements of the claim about termination are the lemmas
  \<open>shrinkString_returns\<close> and \<open>shrinkString_runs_past_end\<close>. The comment on
  \<open>shrinkString\<close> and the claim also say that empty lines are removed. An empty first
  line is kept: the first pass of the outer loop appends a newline before any newline has
  been skipped.
\<close>

theorem shrinkString_keeps_leading_empty_line:
  "shrinkString ''\<newline>void main(){}\<newline>'' = Inr ''\<newline>void main(){}\<newline>''"
  by code_simp

section \<open>Properties of the minifier\<close>

text \<open>
  C1. The comment on \<open>minifyStructFields\<close> and the claim say that a struct whose type is
  \<open>MaterialParams\<close> is left alone. The code has no test for the name: the field is
  renamed and its use is rewritten. The table has one entry, so the order in which it is
  visited plays no part.
\<close>

theorem materialParams_struct_is_minified:
  "minifyStructFields (\<lambda>m. m)
     ''uniform MaterialParams\<newline>{\<newline>vec4 baseColor;\<newline>} materialParams;\<newline>void main(){ c = materialParams.baseColor; }\<newline>'' =
   Some ''uniform MaterialParams\<newline>{\<newline>vec4 a;\<newline>} materialParams;\<newline>void main(){ c = materialParams.a; }\<newline>''"
  by code_simp


subsection \<open>The generator of the short names\<close>

lemma char_of_eq_iff_small:
  "a < 256 \<Longrightarrow> b < 256 \<Longrightarrow> (char_of (a::nat) = char_of b) = (a = b)"
  by simp

lemma z_code: "CHR ''z'' = char_of (122::nat)"
proof -
  have "of_char (CHR ''z'') = (122::nat)" by simp
  then show ?thesis by (metis char_of_char)
qed

lemma a_code: "CHR ''a'' = char_of (97::nat)"
proof -
  have "of_char (CHR ''a'') = (97::nat)" by simp
  then show ?thesis by (metis char_of_char)
qed

lemma shortName_0: "shortName 0 = ''a''"
  by (simp add: shortName_def a_code)

lemma nextFieldName_shortName: "nextFieldName (shortName i) = shortName (Suc i)"
proof (cases "i mod 26 = 25")
  case True
  then have "Suc i mod 26 = 0" "Suc i div 26 = Suc (i div 26)"
    by (simp_all add: mod_Suc div_Suc)
  with True show ?thesis by (simp add: shortName_def z_code [symmetric] a_code [symmetric])
next
  case False
  have lt: "i mod 26 < 26" by simp
  with False have "i mod 26 < 25" by linarith
  then have m: "Suc i mod 26 = Suc (i mod 26)" and d: "Suc i div 26 = i div 26"
    by (simp_all add: mod_Suc div_Suc)
  have ne: "char_of (97 + i mod 26) \<noteq> CHR ''z''"
    unfolding z_code using \<open>i mod 26 < 25\<close> by (subst char_of_eq_iff_small) simp_all
  have "of_char (char_of (97 + i mod 26 :: nat)) = (97 + i mod 26 :: nat)"
    using lt by simp
  with ne m d show ?thesis by (simp add: shortName_def)
qed

lemma funpow_nextFieldName: "(nextFieldName ^^ i) ''a'' = shortName i"
  by (induction i) (simp_all add: shortName_0 nextFieldName_shortName)

lemma generatedNames_shortName: "generatedNames n = map shortName [0..<n]"
  by (simp add: generatedNames_def funpow_nextFieldName)

lemma shortName_inj: "shortName i = shortName j \<Longrightarrow> i = j"
proof -
  assume eq: "shortName i = shortName j"
  then have d: "i div 26 = j div 26"
    by (auto simp: shortName_def dest: arg_cong [where f = length])
  from eq have "char_of (97 + i mod 26) = (char_of (97 + j mod 26) :: char)"
    by (simp add: shortName_def)
  moreover have "i mod 26 < 26" "j mod 26 < 26" by simp_all
  ultimately have "97 + i mod 26 = 97 + j mod 26"
    by (subst (asm) char_of_eq_iff_small) simp_all
  then have "i mod 26 = j mod 26" by simp
  with d show "i = j" by (metis div_mult_mod_eq)
qed

lemma distinct_generatedNames: "distinct (generatedNames n)"
  unfolding generatedNames_shortName
  by (simp add: distinct_map inj_on_def) (blast dest: shortName_inj)

lemma assignFields_fold:
  "assignFields s fs (shortName k) fm =
     fold (\<lambda>(f, n). AList.update (s @ ''.'' @ f) (s @ ''.'' @ n))
       (zip fs (map shortName [k..<k + length fs])) fm"
proof (induction fs arbitrary: k fm)
  case Nil
  then show ?case by simp
next
  case (Cons f fs)
  have "[k..<k + length (f # fs)] = k # [Suc k..<Suc k + length fs]"
    by (subst upt_rec) simp
  then show ?case
    using Cons.IH [of "Suc k"] by (simp add: nextFieldName_shortName)
qed

lemma assignFields_other:
  "f \<notin> set fs \<Longrightarrow> map_of (assignFields s fs g fm) (s @ CHR ''.'' # f) = map_of fm (s @ CHR ''.'' # f)"
  by (induction fs arbitrary: g fm) (auto simp: update_conv')

lemma assignFields_lookup:
  "f \<in> set fs \<Longrightarrow>
   \<exists>i. i < length fs \<and> fs ! i = f \<and>
       map_of (assignFields s fs (shortName k) fm) (s @ ''.'' @ f) = Some (s @ ''.'' @ shortName (k + i))"
proof (induction fs arbitrary: k fm)
  case Nil
  then show ?case by simp
next
  case (Cons x xs)
  show ?case
  proof (cases "f \<in> set xs")
    case True
    from Cons.IH [OF True, of "Suc k" "AList.update (s @ ''.'' @ x) (s @ ''.'' @ shortName k) fm"]
    obtain i where "i < length xs" "xs ! i = f"
      "map_of (assignFields s xs (shortName (Suc k)) (AList.update (s @ ''.'' @ x) (s @ ''.'' @ shortName k) fm)) (s @ ''.'' @ f)
        = Some (s @ ''.'' @ shortName (Suc k + i))" by blast
    then show ?thesis
      by (intro exI [of _ "Suc i"]) (simp add: nextFieldName_shortName)
  next
    case False
    with Cons.prems have "f = x" by simp
    with False show ?thesis
      by (intro exI [of _ 0]) (simp add: nextFieldName_shortName assignFields_other update_conv')
  qed
qed

lemma assignFields_injective:
  assumes "f \<in> set fs" "f' \<in> set fs" "f \<noteq> f'"
  shows "map_of (assignFields s fs ''a'' fm) (s @ ''.'' @ f) \<noteq> map_of (assignFields s fs ''a'' fm) (s @ ''.'' @ f')"
proof -
  from assignFields_lookup [OF assms(1), of s 0 fm] obtain i where
    i: "fs ! i = f" "map_of (assignFields s fs ''a'' fm) (s @ ''.'' @ f) = Some (s @ ''.'' @ shortName i)"
    by (auto simp: shortName_0)
  from assignFields_lookup [OF assms(2), of s 0 fm] obtain j where
    j: "fs ! j = f'" "map_of (assignFields s fs ''a'' fm) (s @ ''.'' @ f') = Some (s @ ''.'' @ shortName j)"
    by (auto simp: shortName_0)
  from i j assms(3) have "i \<noteq> j" by auto
  then have "shortName i \<noteq> shortName j" by (blast dest: shortName_inj)
  with i j show ?thesis by simp
qed

lemma shortName_first_26: "map shortName [0..<26] = map (\<lambda>c. [c]) ''abcdefghijklmnopqrstuvwxyz''"
  by code_simp
lemma shortName_next_26: "map shortName [26..<52] = map (\<lambda>c. [c, CHR ''z'']) ''abcdefghijklmnopqrstuvwxyz''"
  by code_simp

subsection \<open>Searching and splitting\<close>

lemma joinLines_simps [simp]:
  "joinLines [] = []" "joinLines (l # ls) = l @ CHR 0x0A # joinLines ls"
  "joinLines (xs @ ys) = joinLines xs @ joinLines ys"
  by (simp_all add: joinLines_def)

lemma find_first_prefix: "find_first pat (pat @ rest) = Some 0"
proof (cases "pat @ rest")
  case Nil
  then show ?thesis by simp
next
  case (Cons a list)
  have "prefix pat (pat @ rest)" by simp
  with Cons show ?thesis by simp
qed

lemma find_first_notin: "pat \<noteq> [] \<Longrightarrow> hd pat \<notin> set s \<Longrightarrow> find_first pat s = None"
  by (induction s) (cases pat; auto)+

lemma find_first_skip:
  "c \<notin> set l \<Longrightarrow>
   find_first (c # pat) (l @ r) = map_option (\<lambda>i. i + length l) (find_first (c # pat) r)"
  by (induction l) (auto simp: option.map_comp comp_def option.map_ident)

lemma find_str_0: "find_str s pat 0 = find_first pat s"
  by (simp add: find_str_def option.map_ident)

lemma find_str_append:
  "find_str (pre @ t) pat (length pre) = map_option (\<lambda>i. i + length pre) (find_first pat t)"
  by (simp add: find_str_def)



subsection \<open>Splitting into lines\<close>



subsection \<open>Identifiers\<close>

lemma isIdChar_special [simp]:
  "\<not> isIdChar (CHR '' '')" "\<not> isIdChar (CHR '';'')" "\<not> isIdChar (CHR ''}'')"
  "\<not> isIdChar (CHR ''.'')" "\<not> isIdChar (CHR 0x0A)" "\<not> isIdChar (CHR ''{'')"
  by (simp_all add: isIdChar_def isIdCharNondigit_def)

lemma isIdentifier_chars: "isIdentifier x \<Longrightarrow> c \<in> set x \<Longrightarrow> isIdChar c"
  by (simp add: isIdentifier_def list_all_iff)

lemma isIdentifier_notin [simp]:
  assumes "isIdentifier x"
  shows "CHR '' '' \<notin> set x" "CHR '';'' \<notin> set x" "CHR ''}'' \<notin> set x"
    "CHR ''.'' \<notin> set x" "CHR 0x0A \<notin> set x" "x \<noteq> []"
proof -
  show "CHR '' '' \<notin> set x" by (metis isIdentifier_chars isIdChar_special(1) assms)
  show "CHR '';'' \<notin> set x" by (metis isIdentifier_chars isIdChar_special(2) assms)
  show "CHR ''}'' \<notin> set x" by (metis isIdentifier_chars isIdChar_special(3) assms)
  show "CHR ''.'' \<notin> set x" by (metis isIdentifier_chars isIdChar_special(4) assms)
  show "CHR 0x0A \<notin> set x" by (metis isIdentifier_chars isIdChar_special(5) assms)
  show "x \<noteq> []" using assms by (simp add: isIdentifier_def)
qed

lemma consumeIdentifier_at:
  assumes x: "isIdentifier x" and rest: "rest = [] \<or> \<not> isIdChar (hd rest)"
  shows "consumeIdentifier (pre @ x @ rest) (length pre) = Some (length pre + length x, x)"
proof -
  from x obtain c cs where xc: "x = c # cs" and c: "isIdCharNondigit c" and cs: "\<forall>d\<in>set cs. isIdChar d"
    by (cases x) (auto simp: isIdentifier_def list_all_iff)
  have tw: "takeWhile isIdChar (cs @ rest) = cs"
    using cs rest by (cases rest) (auto simp: takeWhile_append2)
  show ?thesis
    using c tw by (simp add: consumeIdentifier_def xc nth_append substr_def Let_def)
qed

lemma consumeIdentifier_0:
  assumes x: "isIdentifier x" and rest: "rest = [] \<or> \<not> isIdChar (hd rest)"
  shows "consumeIdentifier (x @ rest) 0 = Some (length x, x)"
  using consumeIdentifier_at [OF assms, of "[]"] by simp

lemma matchHeader_uniform:
  "isIdentifier T \<Longrightarrow> matchHeader (''uniform '' @ T) = Some T"
  using consumeIdentifier_at [of T "[]" "''uniform ''"]
  by (simp add: matchHeader_def consumeString_def find_str_0)

lemma structOpenNext_brace: "structOpenNext ''{'' = STRUCT_DEFN"
  by (simp add: structOpenNext_def sv_at_def)

lemma classify_fieldDecl:
  assumes ty: "isIdentifier ty" and f: "isIdentifier f"
  shows "classifyDefnLine (fieldDecl ty f) = Field ty f"
proof -
  let ?l = "fieldDecl ty f"
  have "CHR ''}'' \<notin> set ?l" using ty f by (simp add: fieldDecl_def)
  then have 1: "consumeString ?l 0 ''} '' = None"
    by (simp add: consumeString_def find_str_0 find_first_notin)
  have 2: "consumeIdentifier ?l 0 = Some (length ty, ty)"
    using consumeIdentifier_0 [OF ty, of "CHR '' '' # f @ '';''"] by (simp add: fieldDecl_def)
  have 3: "sv_at ?l (length ty) = Some (CHR '' '')"
    by (simp add: sv_at_def fieldDecl_def nth_append)
  have 4: "consumeIdentifier ?l (length ty + 1) = Some (length ty + 1 + length f, f)"
    using consumeIdentifier_at [OF f, of "'';''" "ty @ '' ''"] by (simp add: fieldDecl_def)
  have 5: "sv_at ?l (length ty + 1 + length f) = Some (CHR '';'')"
    by (simp add: sv_at_def fieldDecl_def nth_append)
  have 6: "length ty + 1 + length f + 1 = length ?l" by (simp add: fieldDecl_def)
  show ?thesis
    unfolding classifyDefnLine_def using 1 2 3 4 5 6 by simp
qed


lemma classify_close:
  assumes inst: "isIdentifier inst"
  shows "classifyDefnLine (''} '' @ inst @ '';'') = Close inst"
proof -
  let ?l = "''} '' @ inst @ '';''"
  have 1: "consumeString ?l 0 ''} '' = Some 2"
    using find_first_prefix [of "''} ''" "inst @ '';''"]
    by (simp add: consumeString_def find_str_0)
  have 2: "consumeIdentifier ?l 2 = Some (2 + length inst, inst)"
    using consumeIdentifier_at [OF inst, of "'';''" "''} ''"] by (simp add: numeral_2_eq_2)
  have "find_first '';'' '';'' = Some 0" by simp
  then have "find_str ((''} '' @ inst) @ '';'') '';'' (length (''} '' @ inst)) = Some (length (''} '' @ inst))"
    by (simp only: find_str_append) simp
  then have 3: "consumeString ?l (2 + length inst) '';'' = Some (2 + length inst + 1)"
    by (simp add: consumeString_def numeral_2_eq_2)
  have 4: "2 + length inst + 1 = length ?l" by simp
  show ?thesis
    unfolding classifyDefnLine_def by (simp only: 1 2 3 4 option.case prod.case) simp
qed

subsection \<open>replaceAll\<close>

lemma replaceLoop_total: "from \<noteq> [] \<Longrightarrow> \<exists>r. replaceLoop result from to n = Some r"
proof (induction result "from" to n rule: replaceLoop.induct)
  case (1 result "from" to n)
  show ?case
  proof (cases "find_str result from n")
    case None
    with "1.prems" show ?thesis by (subst replaceLoop.simps) simp
  next
    case (Some i)
    from "1.IH" [OF "1.prems" Some "1.prems"] obtain r where
      "replaceLoop (replace_at result i (length from) to) from to (i + length to) = Some r" ..
    with Some "1.prems" show ?thesis by (subst replaceLoop.simps) simp
  qed
qed






lemma replaceEach_total:
  "\<forall>kv\<in>set kvs. fst kv \<noteq> [] \<Longrightarrow> \<exists>r. replaceEach kvs l = Some r"
proof (induction kvs arbitrary: l)
  case Nil
  then show ?case by simp
next
  case (Cons kv kvs)
  then have "fst kv \<noteq> []" by simp
  from replaceLoop_total [OF this] obtain l' where "replaceAll l (fst kv) (snd kv) = Some l'"
    unfolding replaceAll_def by blast
  moreover from Cons obtain r where "replaceEach kvs l' = Some r" by fastforce
  ultimately show ?case by simp
qed



subsection \<open>The first pass on the lines of a struct\<close>

lemma scan_fields:
  "length tys = length fs \<Longrightarrow> state \<sigma> = STRUCT_DEFN \<Longrightarrow>
   list_all isIdentifier tys \<Longrightarrow> list_all isIdentifier fs \<Longrightarrow>
   foldl scanStep \<sigma> (map2 fieldDecl tys fs) = \<sigma>\<lparr>fields_vec := fields_vec \<sigma> @ fs\<rparr>"
proof (induction tys fs arbitrary: \<sigma> rule: list_induct2)
  case Nil
  then show ?case by simp
next
  case (Cons ty tys f fs)
  from Cons.prems have step: "scanStep \<sigma> (fieldDecl ty f) = \<sigma>\<lparr>fields_vec := fields_vec \<sigma> @ [f]\<rparr>"
    by (simp add: scanStep_def classify_fieldDecl)
  have "foldl scanStep (\<sigma>\<lparr>fields_vec := fields_vec \<sigma> @ [f]\<rparr>) (map2 fieldDecl tys fs) =
          \<sigma>\<lparr>fields_vec := fields_vec \<sigma> @ [f]\<rparr>\<lparr>fields_vec := fields_vec (\<sigma>\<lparr>fields_vec := fields_vec \<sigma> @ [f]\<rparr>) @ fs\<rparr>"
    using Cons.prems by (intro Cons.IH) simp_all
  with step show ?case by simp
qed

subsection \<open>The second pass on the lines of a struct\<close>

lemma rewrite_header:
  "state \<sigma> = OUTSIDE \<Longrightarrow> matchHeader h = Some T \<Longrightarrow>
   rewriteLines order \<sigma> (h # rest) acc =
     rewriteLines order (\<sigma>\<lparr>state := STRUCT_OPEN, currentStruct := T\<rparr>) rest (acc @ joinLines [h])"
  by (simp add: rewriteStep_def)

lemma rewrite_brace:
  "state \<sigma> = STRUCT_OPEN \<Longrightarrow>
   rewriteLines order \<sigma> (''{'' # rest) acc =
     rewriteLines order (\<sigma>\<lparr>state := STRUCT_DEFN\<rparr>) rest (acc @ joinLines [''{''])"
  by (simp add: rewriteStep_def structOpenNext_brace)

lemma rewrite_close:
  "state \<sigma> = STRUCT_DEFN \<Longrightarrow> classifyDefnLine c = Close n \<Longrightarrow>
   rewriteLines order \<sigma> (c # rest) acc =
     rewriteLines order (\<sigma>\<lparr>state := OUTSIDE\<rparr>) rest (acc @ joinLines [c])"
  by (simp add: rewriteStep_def)

lemma find_dot: "CHR ''.'' \<notin> set inst \<Longrightarrow> find_str (inst @ CHR ''.'' # n) ''.'' 0 = Some (length inst)"
  using find_first_skip [of "CHR ''.''" inst "[]" "CHR ''.'' # n"] by (simp add: find_str_0)

lemma rewrite_field_step:
  assumes "state \<sigma> = STRUCT_DEFN" "classifyDefnLine l = Field ty f"
    "map_of (currentStructToName \<sigma>) (currentStruct \<sigma>) = Some inst"
    "map_of (fieldMapping \<sigma>) (inst @ CHR ''.'' # f) = Some (inst @ CHR ''.'' # n)"
    "CHR ''.'' \<notin> set inst"
  shows "rewriteStep order \<sigma> l = Some (\<sigma>, fieldDecl ty n)"
  using assms find_dot [OF assms(5), of n]
  by (simp add: rewriteStep_def index_or_insert_def fieldDecl_def)

lemma rewrite_fields:
  "list_all2 (\<lambda>l l'. \<exists>ty f n. classifyDefnLine l = Field ty f \<and>
       map_of tbl (inst @ CHR ''.'' # f) = Some (inst @ CHR ''.'' # n) \<and>
       l' = fieldDecl ty n) ls ls' \<Longrightarrow>
   state \<sigma> = STRUCT_DEFN \<Longrightarrow> fieldMapping \<sigma> = tbl \<Longrightarrow>
   map_of (currentStructToName \<sigma>) (currentStruct \<sigma>) = Some inst \<Longrightarrow>
   CHR ''.'' \<notin> set inst \<Longrightarrow>
   rewriteLines order \<sigma> (ls @ rest) acc = rewriteLines order \<sigma> rest (acc @ joinLines ls')"
proof (induction ls ls' arbitrary: acc rule: list_all2_induct)
  case Nil
  then show ?case by simp
next
  case (Cons l ls l' ls')
  from Cons.hyps(1) obtain ty f n where
    "classifyDefnLine l = Field ty f"
    "map_of tbl (inst @ CHR ''.'' # f) = Some (inst @ CHR ''.'' # n)"
    "l' = fieldDecl ty n" by blast
  with Cons.prems have step: "rewriteStep order \<sigma> l = Some (\<sigma>, l')"
    using rewrite_field_step [of \<sigma> l ty f inst n order] by simp
  from Cons.IH [OF Cons.prems, of "acc @ l' @ [CHR 0x0A]"] step
  show ?case by simp
qed

subsection \<open>The table of a struct\<close>


lemma set_update_subset: "set (AList.update k v al) \<subseteq> insert (k, v) (set al)"
  by (induction al) auto

lemma assignFields_entries:
  "kv \<in> set (assignFields s fs (shortName k0) fm) \<Longrightarrow>
   kv \<in> set fm \<or> (\<exists>f j. kv = (s @ CHR ''.'' # f, s @ CHR ''.'' # shortName j))"
proof (induction fs arbitrary: k0 fm)
  case Nil
  then show ?case by simp
next
  case (Cons f fs)
  from Cons.prems have
    "kv \<in> set (assignFields s fs (shortName (Suc k0))
                 (AList.update (s @ CHR ''.'' # f) (s @ CHR ''.'' # shortName k0) fm))"
    by (simp add: nextFieldName_shortName)
  from Cons.IH [OF this] show ?case
    using set_update_subset [of "s @ CHR ''.'' # f" "s @ CHR ''.'' # shortName k0" fm] by auto
qed

lemma assignFields_nth:
  assumes "distinct fs" "i < length fs"
  shows "map_of (assignFields s fs ''a'' fm) (s @ CHR ''.'' # fs ! i) = Some (s @ CHR ''.'' # shortName i)"
proof -
  from assms(2) have "fs ! i \<in> set fs" by simp
  from assignFields_lookup [OF this, of s 0 fm] obtain j where
    j: "j < length fs" "fs ! j = fs ! i"
    "map_of (assignFields s fs ''a'' fm) (s @ CHR ''.'' # fs ! i) = Some (s @ CHR ''.'' # shortName j)"
    by (auto simp: shortName_0)
  from j(1,2) assms have "j = i" by (simp add: nth_eq_iff_index_eq)
  with j(3) show ?thesis by simp
qed

lemma isIdChar_letter: "k < 26 \<Longrightarrow> isIdCharNondigit (char_of (97 + k :: nat))"
  by (simp add: isIdCharNondigit_def less_eq_char_def)

lemma isIdentifier_shortName: "isIdentifier (shortName j)"
proof -
  have "isIdCharNondigit (char_of (97 + j mod 26 :: nat))" by (rule isIdChar_letter) simp
  moreover have "isIdChar (CHR ''z'')" by (simp add: isIdChar_def isIdCharNondigit_def)
  ultimately show ?thesis
    by (simp add: isIdentifier_def shortName_def isIdChar_def list_all_iff)
qed



subsection \<open>The order in which the table is visited\<close>

lemma visits_set: "visits_each_entry_once order \<Longrightarrow> set (order m) = set m"
  by (simp add: visits_each_entry_once_def)


subsection \<open>replaceAll replaces every occurrence\<close>

lemma replaceEverywhere_none:
  "find_first from s = None \<Longrightarrow> replaceEverywhere from to s = s"
proof (induction s)
  case Nil
  then show ?case by (subst replaceEverywhere.simps) simp
next
  case (Cons c cs)
  then have np: "\<not> prefix from (c # cs)" and "find_first from cs = None"
    by (simp_all split: if_splits)
  with Cons.IH have "replaceEverywhere from to cs = cs" by simp
  with np show ?case by (subst replaceEverywhere.simps) simp
qed

lemma replaceEverywhere_some:
  "from \<noteq> [] \<Longrightarrow> find_first from s = Some i \<Longrightarrow>
   replaceEverywhere from to s = take i s @ to @ replaceEverywhere from to (drop (i + length from) s)"
proof (induction s arbitrary: i)
  case Nil
  then show ?case by simp
next
  case (Cons c cs)
  show ?case
  proof (cases "prefix from (c # cs)")
    case True
    with Cons.prems have "i = 0" by simp
    with True Cons.prems(1) show ?thesis by (subst replaceEverywhere.simps) simp
  next
    case False
    with Cons.prems obtain j where j: "find_first from cs = Some j" "i = Suc j" by auto
    from Cons.IH [OF Cons.prems(1) j(1)] False Cons.prems(1) j(2)
    show ?thesis by (subst replaceEverywhere.simps) simp
  qed
qed

lemma replaceLoop_replaceEverywhere:
  "from \<noteq> [] \<Longrightarrow> n \<le> length result \<Longrightarrow>
   replaceLoop result from to n = Some (take n result @ replaceEverywhere from to (drop n result))"
proof (induction result "from" to n rule: replaceLoop.induct)
  case (1 result "from" to n)
  show ?case
  proof (cases "find_str result from n")
    case None
    with "1.prems" have "find_first from (drop n result) = None"
      by (simp add: find_str_def)
    then have "replaceEverywhere from to (drop n result) = drop n result"
      by (rule replaceEverywhere_none)
    with None "1.prems" show ?thesis by (subst replaceLoop.simps) simp
  next
    case (Some i)
    from find_str_bound [OF Some] have b: "n \<le> i" "i + length from \<le> length result" by simp_all
    from Some "1.prems" have ff: "find_first from (drop n result) = Some (i - n)"
      using b by (auto simp: find_str_def)
    let ?r = "replace_at result i (length from) to"
    have len: "i + length to \<le> length ?r" using b by (simp add: replace_at_def)
    have tk: "take (i + length to) ?r = take i result @ to"
      using b by (simp add: replace_at_def)
    have dr: "drop (i + length to) ?r = drop (i + length from) result"
      using b by (simp add: replace_at_def)
    from "1.IH" [OF "1.prems"(1) Some "1.prems"(1) len]
    have rec: "replaceLoop ?r from to (i + length to) =
                 Some (take i result @ to @ replaceEverywhere from to (drop (i + length from) result))"
      by (simp only: tk dr) simp
    have e1: "replaceEverywhere from to (drop n result) =
          take (i - n) (drop n result) @ to @
            replaceEverywhere from to (drop (i - n + length from) (drop n result))"
      using replaceEverywhere_some [OF "1.prems"(1) ff] by simp
    have e2: "take n result @ take (i - n) (drop n result) = take i result"
      using b by (metis le_add_diff_inverse take_add)
    have e3: "drop (i - n + length from) (drop n result) = drop (i + length from) result"
      using b by simp
    have "take n result @ replaceEverywhere from to (drop n result) =
          (take n result @ take (i - n) (drop n result)) @ to @
            replaceEverywhere from to (drop (i + length from) result)"
      by (subst e1) (simp only: e3 append_assoc)
    then have "take n result @ replaceEverywhere from to (drop n result) =
          take i result @ to @ replaceEverywhere from to (drop (i + length from) result)"
      by (simp only: e2)
    with rec Some "1.prems" show ?thesis by (subst replaceLoop.simps) simp
  qed
qed

lemma replaceAll_replaceEverywhere:
  "from \<noteq> [] \<Longrightarrow> replaceAll s from to = Some (replaceEverywhere from to s)"
  using replaceLoop_replaceEverywhere [of "from" 0 s to] by (simp add: replaceAll_def)

lemma replaceEach_rewriteUse:
  "\<forall>kv\<in>set kvs. fst kv \<noteq> [] \<Longrightarrow> replaceEach kvs l = Some (rewriteUse kvs l)"
proof (induction kvs arbitrary: l)
  case Nil
  then show ?case by (simp add: rewriteUse_def)
next
  case (Cons kv kvs)
  then have "replaceAll l (fst kv) (snd kv) = Some (replaceEverywhere (fst kv) (snd kv) l)"
    by (simp add: replaceAll_replaceEverywhere)
  moreover have "replaceEach kvs (replaceEverywhere (fst kv) (snd kv) l) =
      Some (rewriteUse kvs (replaceEverywhere (fst kv) (snd kv) l))"
    using Cons by simp
  ultimately show ?case by (simp add: rewriteUse_def)
qed



subsection \<open>The first pass on a source text\<close>

lemma linesOf_simps [simp]:
  "linesOf [] = []" "linesOf (seg # segs) = segLines seg @ linesOf segs"
  "linesOf (xs @ ys) = linesOf xs @ linesOf ys"
  by (simp_all add: linesOf_def)

lemma structOpenNext_other: "l \<noteq> ''{'' \<Longrightarrow> structOpenNext l = OUTSIDE"
  by (cases l) (auto simp: structOpenNext_def sv_at_def)

lemma scan_segment:
  assumes st: "state \<sigma> = OUTSIDE" and fv: "fields_vec \<sigma> = []" and wf: "wellFormed seg"
  shows "state (foldl scanStep \<sigma> (segLines seg)) = OUTSIDE
       \<and> fields_vec (foldl scanStep \<sigma> (segLines seg)) = []
       \<and> fieldMapping (foldl scanStep \<sigma> (segLines seg)) = assignSegment (fieldMapping \<sigma>) seg
       \<and> currentStructToName (foldl scanStep \<sigma> (segLines seg)) =
           nameSegment (currentStructToName \<sigma>) seg"
proof (cases seg)
  case (Plain l)
  with wf st have "scanStep \<sigma> l = \<sigma>" by (simp add: scanStep_def)
  with Plain st fv show ?thesis by simp
next
  case (FalseStart h l)
  with wf obtain T where T: "matchHeader h = Some T" and l: "l \<noteq> ''{''" by auto
  let ?s1 = "\<sigma>\<lparr>state := STRUCT_OPEN, currentStruct := T\<rparr>"
  have h: "scanStep \<sigma> h = ?s1" using st T by (simp add: scanStep_def)
  have n: "scanStep ?s1 l = ?s1\<lparr>state := OUTSIDE\<rparr>"
    using structOpenNext_other [OF l] by (simp add: scanStep_def)
  show ?thesis unfolding FalseStart using fv by (simp add: h n)
next
  case (Block T inst tys fs)
  with wf have T: "isIdentifier T" and inst: "isIdentifier inst" and len: "length tys = length fs"
    and tys: "list_all isIdentifier tys" and fs: "list_all isIdentifier fs" by simp_all
  let ?s1 = "\<sigma>\<lparr>state := STRUCT_OPEN, currentStruct := T\<rparr>"
  have h: "scanStep \<sigma> (''uniform '' @ T) = ?s1"
    using matchHeader_uniform [OF T] st by (simp add: scanStep_def)
  let ?s2 = "?s1\<lparr>state := STRUCT_DEFN\<rparr>"
  have b: "scanStep ?s1 ''{'' = ?s2"
    by (simp add: scanStep_def structOpenNext_brace)
  let ?s3 = "?s2\<lparr>fields_vec := fs\<rparr>"
  have fsl: "foldl scanStep ?s2 (map2 fieldDecl tys fs) = ?s3"
    using scan_fields [of tys fs ?s2] len tys fs fv by simp
  let ?s4 = "?s3\<lparr>state := OUTSIDE, fields_vec := [],
                 fieldMapping := assignFields inst fs ''a'' (fieldMapping \<sigma>),
                 currentStructToName := AList.update T inst (currentStructToName \<sigma>)\<rparr>"
  have c: "scanStep ?s3 (''} '' @ inst @ '';'') = ?s4"
    using classify_close [OF inst] by (simp add: scanStep_def)
  have "foldl scanStep \<sigma> (segLines seg) = ?s4"
    unfolding Block segLines.simps structBlock_def foldl_append foldl_Cons foldl_Nil h b fsl c ..
  then show ?thesis unfolding Block by simp
qed

lemma scan_segments:
  "state \<sigma> = OUTSIDE \<Longrightarrow> fields_vec \<sigma> = [] \<Longrightarrow> list_all wellFormed segs \<Longrightarrow>
   state (foldl scanStep \<sigma> (linesOf segs)) = OUTSIDE
   \<and> fields_vec (foldl scanStep \<sigma> (linesOf segs)) = []
   \<and> fieldMapping (foldl scanStep \<sigma> (linesOf segs)) =
       foldl assignSegment (fieldMapping \<sigma>) segs
   \<and> currentStructToName (foldl scanStep \<sigma> (linesOf segs)) =
       foldl nameSegment (currentStructToName \<sigma>) segs"
proof (induction segs arbitrary: \<sigma>)
  case Nil
  then show ?case by simp
next
  case (Cons seg segs)
  from Cons.prems have wf: "wellFormed seg" and wfs: "list_all wellFormed segs" by simp_all
  let ?s = "foldl scanStep \<sigma> (segLines seg)"
  from scan_segment [OF Cons.prems(1,2) wf] have
    s: "state ?s = OUTSIDE" "fields_vec ?s = []"
       "fieldMapping ?s = assignSegment (fieldMapping \<sigma>) seg"
       "currentStructToName ?s = nameSegment (currentStructToName \<sigma>) seg" by simp_all
  from Cons.IH [OF s(1,2) wfs] show ?case by (simp add: s(3,4))
qed




lemma firstPass_source:
  assumes "codelinesFrom source 0 = linesOf segs" and "list_all wellFormed segs"
  shows "state (firstPass source) = OUTSIDE"
    "fields_vec (firstPass source) = []"
    "fieldMapping (firstPass source) = tableOf segs"
    "currentStructToName (firstPass source) = foldl nameSegment [] segs"
  using scan_segments [of initial_state segs, OF _ _ assms(2)]
  by (simp_all add: firstPass_def assms(1) tableOf_def initial_state_def)

subsection \<open>The second pass on a source text\<close>

lemma rewrite_plain_step:
  assumes "state \<sigma> = OUTSIDE" "matchHeader l = None"
    "\<forall>kv\<in>set (order (fieldMapping \<sigma>)). fst kv \<noteq> []"
  shows "rewriteStep order \<sigma> l = Some (\<sigma>, rewriteUse (order (fieldMapping \<sigma>)) l)"
  using assms replaceEach_rewriteUse [OF assms(3), of l] by (simp add: rewriteStep_def)

lemma rewrite_segment:
  assumes st: "state \<sigma> = OUTSIDE" and fm: "fieldMapping \<sigma> = tbl"
    and nm: "currentStructToName \<sigma> = names"
    and wf: "wellFormed seg" and res: "resolved tbl names seg"
    and keys: "\<forall>kv\<in>set (order tbl). fst kv \<noteq> []"
  shows "\<exists>\<sigma>'. state \<sigma>' = OUTSIDE \<and> fieldMapping \<sigma>' = tbl \<and> currentStructToName \<sigma>' = names \<and>
           (\<forall>rest acc. rewriteLines order \<sigma> (segLines seg @ rest) acc =
              rewriteLines order \<sigma>' rest
                (acc @ joinLines (segLines (rewriteSegment tbl (order tbl) seg))))"
proof (cases seg)
  case (Plain l)
  with wf have "matchHeader l = None" by simp
  from rewrite_plain_step [OF st this] keys fm
  have "rewriteStep order \<sigma> l = Some (\<sigma>, rewriteUse (order tbl) l)" by simp
  then have "\<forall>rest acc. rewriteLines order \<sigma> (segLines seg @ rest) acc =
              rewriteLines order \<sigma> rest
                (acc @ joinLines (segLines (rewriteSegment tbl (order tbl) seg)))"
    unfolding Plain by simp
  with st fm nm show ?thesis by blast
next
  case (FalseStart h l)
  with wf obtain T where T: "matchHeader h = Some T" and l: "l \<noteq> ''{''" by auto
  let ?s1 = "\<sigma>\<lparr>state := STRUCT_OPEN, currentStruct := T\<rparr>"
  let ?s2 = "?s1\<lparr>state := OUTSIDE\<rparr>"
  have h: "rewriteStep order \<sigma> h = Some (?s1, h)" using st T by (simp add: rewriteStep_def)
  have n: "rewriteStep order ?s1 l = Some (?s2, l)"
    using structOpenNext_other [OF l] by (simp add: rewriteStep_def)
  have "\<forall>rest acc. rewriteLines order \<sigma> (segLines seg @ rest) acc =
              rewriteLines order ?s2 rest
                (acc @ joinLines (segLines (rewriteSegment tbl (order tbl) seg)))"
    unfolding FalseStart by (simp add: h n)
  moreover have "state ?s2 = OUTSIDE" "fieldMapping ?s2 = tbl" "currentStructToName ?s2 = names"
    using fm nm by simp_all
  ultimately show ?thesis by blast
next
  case (Block T inst tys fs)
  with wf have T: "isIdentifier T" and inst: "isIdentifier inst" and len: "length tys = length fs"
    and tys: "list_all isIdentifier tys" and fs: "list_all isIdentifier fs" by simp_all
  from res Block have names: "map_of names T = Some inst"
    and look: "\<forall>f\<in>set fs. map_of tbl (inst @ CHR ''.'' # f) = Some (inst @ CHR ''.'' # shortOf tbl inst f)"
    by (simp_all add: list_all_iff)
  let ?fs' = "map (shortOf tbl inst) fs"
  let ?decls = "map2 fieldDecl tys fs"
  let ?decls' = "map2 fieldDecl tys ?fs'"
  let ?h = "''uniform '' @ T" and ?c = "''} '' @ inst @ '';''"
  let ?s1 = "\<sigma>\<lparr>state := STRUCT_OPEN, currentStruct := T\<rparr>"
  let ?s2 = "?s1\<lparr>state := STRUCT_DEFN\<rparr>"
  let ?s3 = "?s2\<lparr>state := OUTSIDE\<rparr>"
  have dot: "CHR ''.'' \<notin> set inst" using inst by simp
  have decl_rel: "list_all2 (\<lambda>l l'. \<exists>ty f n. classifyDefnLine l = Field ty f \<and>
       map_of tbl (inst @ CHR ''.'' # f) = Some (inst @ CHR ''.'' # n) \<and>
       l' = fieldDecl ty n) ?decls ?decls'"
  proof (rule list_all2_all_nthI)
    show "length ?decls = length ?decls'" using len by simp
  next
    fix i assume "i < length ?decls"
    with len have i: "i < length fs" "i < length tys" by simp_all
    then have "isIdentifier (tys ! i)" "isIdentifier (fs ! i)"
      using tys fs by (simp_all add: list_all_length)
    then have 1: "classifyDefnLine (fieldDecl (tys ! i) (fs ! i)) = Field (tys ! i) (fs ! i)"
      by (rule classify_fieldDecl)
    have 2: "map_of tbl (inst @ CHR ''.'' # fs ! i) = Some (inst @ CHR ''.'' # shortOf tbl inst (fs ! i))"
      using look i(1) by simp
    have 3: "?decls ! i = fieldDecl (tys ! i) (fs ! i)" using i by simp
    have 4: "?decls' ! i = fieldDecl (tys ! i) (shortOf tbl inst (fs ! i))" using i by simp
    show "\<exists>ty f n. classifyDefnLine (?decls ! i) = Field ty f \<and>
       map_of tbl (inst @ CHR ''.'' # f) = Some (inst @ CHR ''.'' # n) \<and>
       ?decls' ! i = fieldDecl ty n"
      unfolding 3 4 using 1 2 by blast
  qed
  have s2: "state ?s2 = STRUCT_DEFN" "fieldMapping ?s2 = tbl"
    "map_of (currentStructToName ?s2) (currentStruct ?s2) = Some inst"
    using fm nm names by simp_all
  have "rewriteLines order \<sigma> (segLines seg @ rest) acc =
          rewriteLines order ?s3 rest
            (acc @ joinLines (segLines (rewriteSegment tbl (order tbl) seg)))" for rest acc
  proof -
    have e2: "rewriteLines order \<sigma> (?h # ''{'' # ?decls @ ?c # rest) acc =
              rewriteLines order ?s1 (''{'' # ?decls @ ?c # rest) (acc @ joinLines [?h])"
      using st matchHeader_uniform [OF T] by (rule rewrite_header)
    have e3: "rewriteLines order ?s1 (''{'' # ?decls @ ?c # rest) (acc @ joinLines [?h]) =
              rewriteLines order ?s2 (?decls @ ?c # rest)
                ((acc @ joinLines [?h]) @ joinLines [''{''])"
      by (rule rewrite_brace) simp
    have e4: "rewriteLines order ?s2 (?decls @ ?c # rest)
                ((acc @ joinLines [?h]) @ joinLines [''{'']) =
              rewriteLines order ?s2 (?c # rest)
                (((acc @ joinLines [?h]) @ joinLines [''{'']) @ joinLines ?decls')"
      using decl_rel s2 dot by (rule rewrite_fields)
    have e5: "rewriteLines order ?s2 (?c # rest)
                (((acc @ joinLines [?h]) @ joinLines [''{'']) @ joinLines ?decls') =
              rewriteLines order ?s3 rest
                ((((acc @ joinLines [?h]) @ joinLines [''{'']) @ joinLines ?decls') @ joinLines [?c])"
      using s2(1) classify_close [OF inst] by (rule rewrite_close)
    have shape: "segLines seg @ rest = ?h # ''{'' # ?decls @ ?c # rest"
      unfolding Block by (simp add: structBlock_def)
    have out: "acc @ joinLines (segLines (rewriteSegment tbl (order tbl) seg)) =
          (((acc @ joinLines [?h]) @ joinLines [''{'']) @ joinLines ?decls') @ joinLines [?c]"
      unfolding Block by (simp add: structBlock_def)
    show ?thesis unfolding shape e2 e3 e4 e5 out ..
  qed
  moreover have "state ?s3 = OUTSIDE" "fieldMapping ?s3 = tbl" "currentStructToName ?s3 = names"
    using fm nm by simp_all
  ultimately show ?thesis by blast
qed

lemma rewrite_segments:
  "state \<sigma> = OUTSIDE \<Longrightarrow> fieldMapping \<sigma> = tbl \<Longrightarrow> currentStructToName \<sigma> = names \<Longrightarrow>
   list_all wellFormed segs \<Longrightarrow> list_all (resolved tbl names) segs \<Longrightarrow>
   \<forall>kv\<in>set (order tbl). fst kv \<noteq> [] \<Longrightarrow>
   rewriteLines order \<sigma> (linesOf segs) acc =
     Some (acc @ joinLines (linesOf (map (rewriteSegment tbl (order tbl)) segs)))"
proof (induction segs arbitrary: \<sigma> acc)
  case Nil
  then show ?case by simp
next
  case (Cons seg segs)
  from Cons.prems have wf: "wellFormed seg" and wfs: "list_all wellFormed segs"
    and res: "resolved tbl names seg" and ress: "list_all (resolved tbl names) segs" by simp_all
  from rewrite_segment [of \<sigma> tbl names seg order, OF Cons.prems(1,2,3) wf res Cons.prems(6)] obtain \<sigma>' where
    s: "state \<sigma>' = OUTSIDE" "fieldMapping \<sigma>' = tbl" "currentStructToName \<sigma>' = names"
    and step: "\<And>rest acc. rewriteLines order \<sigma> (segLines seg @ rest) acc =
              rewriteLines order \<sigma>' rest
                (acc @ joinLines (segLines (rewriteSegment tbl (order tbl) seg)))"
    by blast
  from Cons.IH [OF s wfs ress Cons.prems(6)] step show ?case by simp
qed

subsection \<open>The table of a source text\<close>

lemma fold_update_zip_map:
  "fold (\<lambda>(f, n). AList.update (a f) (b n)) (zip xs ys) fm =
   fold (\<lambda>(k, v). AList.update k v) (zip (map a xs) (map b ys)) fm"
proof (induction xs arbitrary: ys fm)
  case Nil
  then show ?case by simp
next
  case (Cons x xs)
  then show ?case by (cases ys) simp_all
qed

lemma assignSegment_updates:
  "assignSegment fm seg = fold (\<lambda>(k, v). AList.update k v) (updatesOfSegment seg) fm"
proof (cases seg)
  case (Block T inst tys fs)
  have "assignFields inst fs ''a'' fm =
          fold (\<lambda>(f, n). AList.update (inst @ ''.'' @ f) (inst @ ''.'' @ n))
            (zip fs (map shortName [0..<length fs])) fm"
    using assignFields_fold [of inst fs 0 fm] by (simp add: shortName_0)
  also have "\<dots> = fold (\<lambda>(k, v). AList.update k v)
            (zip (map (\<lambda>f. inst @ ''.'' @ f) fs)
                 (map (\<lambda>n. inst @ ''.'' @ n) (map shortName [0..<length fs]))) fm"
    by (rule fold_update_zip_map)
  finally show ?thesis unfolding Block by (simp add: comp_def)
qed simp_all

lemma foldl_assignSegment_updates:
  "foldl assignSegment fm segs = fold (\<lambda>(k, v). AList.update k v) (updatesOf segs) fm"
  by (induction segs arbitrary: fm) (simp_all add: updatesOf_def assignSegment_updates)

lemma tableOf_updates:
  "tableOf segs = fold (\<lambda>(k, v). AList.update k v) (updatesOf segs) []"
  by (simp add: tableOf_def foldl_assignSegment_updates)

lemma map_of_fold_update:
  "map_of (fold (\<lambda>(k, v). AList.update k v) U fm) k =
     (case map_of (rev U) k of Some v \<Rightarrow> Some v | None \<Rightarrow> map_of fm k)"
proof (induction U arbitrary: fm)
  case Nil
  then show ?case by simp
next
  case (Cons kv U)
  obtain k0 v0 where kv: "kv = (k0, v0)" by (cases kv)
  show ?case
    unfolding kv using Cons.IH [of "AList.update k0 v0 fm"]
    by (simp add: update_conv' map_add_def split: option.splits)
qed

lemma map_of_tableOf: "map_of (tableOf segs) = map_of (rev (updatesOf segs))"
  by (rule ext) (simp add: tableOf_updates map_of_fold_update split: option.splits)

lemma distinct_fold_update:
  "distinct (map fst fm) \<Longrightarrow> distinct (map fst (fold (\<lambda>(k, v). AList.update k v) U fm))"
  by (induction U arbitrary: fm) (auto simp: distinct_update)

lemma distinct_tableOf: "distinct (map fst (tableOf segs))"
  by (simp add: tableOf_updates distinct_fold_update)

lemma tableOf_entry_iff: "(k, v) \<in> set (tableOf segs) \<longleftrightarrow> map_of (rev (updatesOf segs)) k = Some v"
  using distinct_tableOf [of segs] by (simp add: map_of_tableOf [symmetric])

lemma updates_shape:
  "(k, v) \<in> set (updatesOf segs) \<Longrightarrow>
   \<exists>T inst tys fs f j. Block T inst tys fs \<in> set segs \<and> f \<in> set fs \<and>
      k = inst @ CHR ''.'' # f \<and> v = inst @ CHR ''.'' # shortName j"
proof -
  assume "(k, v) \<in> set (updatesOf segs)"
  then obtain seg where seg: "seg \<in> set segs" and kv: "(k, v) \<in> set (updatesOfSegment seg)"
    by (auto simp: updatesOf_def)
  show ?thesis
  proof (cases seg)
    case (Block T inst tys fs)
    with kv have "k \<in> set (map (\<lambda>f. inst @ ''.'' @ f) fs)"
      "v \<in> set (map (\<lambda>i. inst @ ''.'' @ shortName i) [0..<length fs])"
      by (auto dest: set_zip_leftD set_zip_rightD)
    then obtain f j where "f \<in> set fs" "k = inst @ CHR ''.'' # f" "v = inst @ CHR ''.'' # shortName j"
      by auto
    with seg Block show ?thesis by blast
  next
    case (Plain l)
    with kv show ?thesis by simp
  next
    case (FalseStart h l)
    with kv show ?thesis by simp
  qed
qed

lemma updates_keys:
  assumes "Block T inst tys fs \<in> set segs" "f \<in> set fs"
  shows "inst @ CHR ''.'' # f \<in> fst ` set (updatesOf segs)"
proof -
  let ?ks = "map (\<lambda>f. inst @ CHR ''.'' # f) fs"
  let ?vs = "map (\<lambda>i. inst @ CHR ''.'' # shortName i) [0..<length fs]"
  have "map fst (zip ?ks ?vs) = ?ks" by (rule map_fst_zip) simp
  then have "fst ` set (zip ?ks ?vs) = set ?ks" by (metis set_map)
  moreover have "inst @ CHR ''.'' # f \<in> set ?ks" using assms(2) by simp
  ultimately have "inst @ CHR ''.'' # f \<in> fst ` set (updatesOfSegment (Block T inst tys fs))"
    by simp
  with assms(1) show ?thesis unfolding updatesOf_def by (simp only: set_concat set_map) blast
qed

lemma dot_split:
  "CHR ''.'' \<notin> set a \<Longrightarrow> CHR ''.'' \<notin> set b \<Longrightarrow> a @ CHR ''.'' # x = b @ CHR ''.'' # y \<Longrightarrow>
   a = b \<and> x = y"
proof (induction a arbitrary: b)
  case Nil
  then show ?case by (cases b) auto
next
  case (Cons c a)
  then show ?case by (cases b) auto
qed

lemma wellFormed_inst:
  "list_all wellFormed segs \<Longrightarrow> Block T inst tys fs \<in> set segs \<Longrightarrow> isIdentifier inst"
  by (auto simp: list_all_iff)

lemma tableOf_lookup:
  assumes wf: "list_all wellFormed segs" and blk: "Block T inst tys fs \<in> set segs"
    and f: "f \<in> set fs"
  shows "\<exists>j. map_of (tableOf segs) (inst @ CHR ''.'' # f) = Some (inst @ CHR ''.'' # shortName j)"
proof -
  let ?U = "updatesOf segs"
  from updates_keys [OF blk f] have "inst @ CHR ''.'' # f \<in> fst ` set (rev ?U)" by simp
  then obtain v where v: "map_of (rev ?U) (inst @ CHR ''.'' # f) = Some v"
    by (metis map_of_eq_None_iff not_Some_eq)
  then have "(inst @ CHR ''.'' # f, v) \<in> set ?U" by (auto dest: map_of_SomeD)
  from updates_shape [OF this] obtain T' inst' tys' fs' f' j where
    b': "Block T' inst' tys' fs' \<in> set segs" and
    k: "inst @ CHR ''.'' # f = inst' @ CHR ''.'' # f'" and v': "v = inst' @ CHR ''.'' # shortName j"
    by blast
  have "CHR ''.'' \<notin> set inst" "CHR ''.'' \<notin> set inst'"
    using wellFormed_inst [OF wf blk] wellFormed_inst [OF wf b'] by simp_all
  from dot_split [OF this k] have "inst' = inst" by simp
  with v v' show ?thesis by (auto simp: map_of_tableOf)
qed

lemma shortOf_lookup:
  "map_of tbl (inst @ CHR ''.'' # f) = Some (inst @ CHR ''.'' # n) \<Longrightarrow> shortOf tbl inst f = n"
  by (simp add: shortOf_def)

lemma in_typeNames: "Block T inst tys fs \<in> set segs \<Longrightarrow> T \<in> set (typeNames segs)"
  by (induction segs rule: typeNames.induct) auto

lemma names_other:
  "T \<notin> set (typeNames segs) \<Longrightarrow> map_of (foldl nameSegment names segs) T = map_of names T"
  by (induction segs arbitrary: names rule: typeNames.induct) (auto simp: update_conv')

lemma names_lookup:
  "distinct (typeNames segs) \<Longrightarrow> Block T inst tys fs \<in> set segs \<Longrightarrow>
   map_of (foldl nameSegment names segs) T = Some inst"
proof (induction segs arbitrary: names rule: typeNames.induct)
  case 1
  then show ?case by simp
next
  case (2 T' inst' tys' fs' segs)
  show ?case
  proof (cases "Block T inst tys fs \<in> set segs")
    case True
    with 2 show ?thesis by simp
  next
    case False
    with "2.prems" have eq: "T' = T" "inst' = inst" by simp_all
    from "2.prems"(1) eq have "T \<notin> set (typeNames segs)" by simp
    from names_other [OF this] eq show ?thesis by (simp add: update_conv')
  qed
next
  case (3 l segs)
  then show ?case by simp
next
  case (4 h l segs)
  then show ?case by simp
qed

lemma resolved_segments:
  assumes wf: "list_all wellFormed segs" and dt: "distinct (typeNames segs)"
  shows "list_all (resolved (tableOf segs) (foldl nameSegment [] segs)) segs"
  unfolding list_all_iff
proof
  fix seg assume seg: "seg \<in> set segs"
  show "resolved (tableOf segs) (foldl nameSegment [] segs) seg"
  proof (cases seg)
    case (Block T inst tys fs)
    with seg have blk: "Block T inst tys fs \<in> set segs" by simp
    have 1: "map_of (foldl nameSegment [] segs) T = Some inst"
      using dt blk by (rule names_lookup)
    have 2: "map_of (tableOf segs) (inst @ CHR ''.'' # f) =
               Some (inst @ CHR ''.'' # shortOf (tableOf segs) inst f)" if "f \<in> set fs" for f
    proof -
      from tableOf_lookup [OF wf blk that] obtain j where
        j: "map_of (tableOf segs) (inst @ CHR ''.'' # f) = Some (inst @ CHR ''.'' # shortName j)" ..
      from shortOf_lookup [OF j] j show ?thesis by simp
    qed
    from 1 2 show ?thesis unfolding Block by (simp add: list_all_iff)
  qed simp_all
qed

lemma tableOf_entries:
  assumes wf: "list_all wellFormed segs" and kv: "kv \<in> set (tableOf segs)"
  shows "fst kv \<noteq> [] \<and> snd kv \<noteq> [] \<and> CHR 0x0A \<notin> set (snd kv)"
proof -
  obtain k v where e: "kv = (k, v)" by (cases kv)
  with kv have "map_of (rev (updatesOf segs)) k = Some v" by (simp add: tableOf_entry_iff)
  then have "(k, v) \<in> set (updatesOf segs)" by (auto dest: map_of_SomeD)
  from updates_shape [OF this] obtain T inst tys fs f j where
    b: "Block T inst tys fs \<in> set segs" and k: "k = inst @ CHR ''.'' # f"
    and v: "v = inst @ CHR ''.'' # shortName j" by blast
  from wellFormed_inst [OF wf b] isIdentifier_shortName [of j] show ?thesis
    unfolding e k v by simp
qed

lemma visited_entries:
  assumes "visits_each_entry_once order" "list_all wellFormed segs"
  shows "\<forall>kv\<in>set (order (tableOf segs)). fst kv \<noteq> [] \<and> snd kv \<noteq> [] \<and> CHR 0x0A \<notin> set (snd kv)"
  using tableOf_entries [OF assms(2)] visits_set [OF assms(1)] by blast

subsection \<open>One run on a source text\<close>

lemma minify_source:
  assumes cl: "codelinesFrom source 0 = linesOf segs"
    and wf: "list_all wellFormed segs" and dt: "distinct (typeNames segs)"
    and ord: "visits_each_entry_once order"
  shows "minifyStructFields order source = Some (sourceOf (minifiedSegments order segs))"
proof -
  let ?\<sigma> = "firstPass source"
  let ?tbl = "tableOf segs" and ?names = "foldl nameSegment [] segs"
  have s: "state (?\<sigma>\<lparr>state := OUTSIDE\<rparr>) = OUTSIDE" "fieldMapping (?\<sigma>\<lparr>state := OUTSIDE\<rparr>) = ?tbl"
    "currentStructToName (?\<sigma>\<lparr>state := OUTSIDE\<rparr>) = ?names"
    using firstPass_source [OF cl wf] by simp_all
  have keys: "\<forall>kv\<in>set (order ?tbl). fst kv \<noteq> []"
    using visited_entries [OF ord wf] by blast
  have run: "rewriteLines order (?\<sigma>\<lparr>state := OUTSIDE\<rparr>) (linesOf segs) [] =
          Some ([] @ joinLines (linesOf (map (rewriteSegment ?tbl (order ?tbl)) segs)))"
    using s wf resolved_segments [OF wf dt] keys by (rule rewrite_segments)
  have "minifyStructFields order source =
          rewriteLines order (?\<sigma>\<lparr>state := OUTSIDE\<rparr>) (linesOf segs) []"
    unfolding minifyStructFields_def firstPass_def Let_def cl ..
  also note run
  also have "[] @ joinLines (linesOf (map (rewriteSegment ?tbl (order ?tbl)) segs)) =
          sourceOf (minifiedSegments order segs)"
    by (simp add: sourceOf_def minifiedSegments_def)
  finally show ?thesis .
qed

subsection \<open>Two runs on a source text\<close>


subsection \<open>Two runs on a source text: the second table\<close>









subsection \<open>The names of a struct in the table\<close>

lemma assignSegment_shortNames: "assignSegment fm seg = assignShortNames fm seg"
  using assignFields_fold [of _ _ 0 fm] by (cases seg) (simp_all add: shortName_0)

lemma tableOf_shortNames: "tableOf segs = foldl assignShortNames [] segs"
proof -
  have "foldl assignSegment fm segs = foldl assignShortNames fm segs" for fm
    by (induction segs arbitrary: fm) (simp_all add: assignSegment_shortNames)
  then show ?thesis by (simp add: tableOf_def)
qed

lemma assignFields_other_inst:
  "inst' \<noteq> inst \<Longrightarrow> CHR ''.'' \<notin> set inst \<Longrightarrow> CHR ''.'' \<notin> set inst' \<Longrightarrow>
   map_of (assignFields inst' fs g fm) (inst @ CHR ''.'' # f) = map_of fm (inst @ CHR ''.'' # f)"
proof (induction fs arbitrary: g fm)
  case Nil
  then show ?case by simp
next
  case (Cons x xs)
  have "inst' @ CHR ''.'' # x \<noteq> inst @ CHR ''.'' # f"
    using dot_split [of inst' inst x f] Cons.prems by blast
  with Cons show ?case by (simp add: update_conv')
qed

lemma later_segments_keep:
  "list_all wellFormed post \<Longrightarrow> isIdentifier inst \<Longrightarrow> inst \<notin> set (instanceNames post) \<Longrightarrow>
   map_of (foldl assignSegment fm post) (inst @ CHR ''.'' # f) = map_of fm (inst @ CHR ''.'' # f)"
proof (induction post arbitrary: fm rule: instanceNames.induct)
  case 1
  then show ?case by simp
next
  case (2 T' inst' tys' fs' segs)
  then have "inst' \<noteq> inst" "isIdentifier inst'" by auto
  with "2.prems"(2) have
    "map_of (assignFields inst' fs' ''a'' fm) (inst @ CHR ''.'' # f) = map_of fm (inst @ CHR ''.'' # f)"
    by (intro assignFields_other_inst) simp_all
  with 2 show ?case by simp
next
  case (3 l segs)
  then show ?case by simp
next
  case (4 h l segs)
  then show ?case by simp
qed

lemma tableOf_split:
  "tableOf (pre @ Block T inst tys fs # post) =
     foldl assignSegment (assignFields inst fs ''a'' (tableOf pre)) post"
  by (simp add: tableOf_def)

lemma instanceNames_append [simp]:
  "instanceNames (xs @ ys) = instanceNames xs @ instanceNames ys"
  by (induction xs rule: instanceNames.induct) simp_all

lemma typeNames_append [simp]:
  "typeNames (xs @ ys) = typeNames xs @ typeNames ys"
  by (induction xs rule: typeNames.induct) simp_all

lemma tableOf_struct_lookup:
  assumes wf: "list_all wellFormed (pre @ Block T inst tys fs # post)"
    and later: "inst \<notin> set (instanceNames post)"
  shows "map_of (tableOf (pre @ Block T inst tys fs # post)) (inst @ CHR ''.'' # f) =
           map_of (assignFields inst fs ''a'' (tableOf pre)) (inst @ CHR ''.'' # f)"
proof -
  from wf have "list_all wellFormed post" "isIdentifier inst" by simp_all
  from later_segments_keep [OF this later] show ?thesis by (simp add: tableOf_split)
qed

lemma tableOf_nth:
  assumes wf: "list_all wellFormed segs" and di: "distinct (instanceNames segs)"
    and blk: "Block T inst tys fs \<in> set segs" and df: "distinct fs" and i: "i < length fs"
  shows "map_of (tableOf segs) (inst @ CHR ''.'' # fs ! i) = Some (inst @ CHR ''.'' # shortName i)"
proof -
  from blk obtain pre post where segs: "segs = pre @ Block T inst tys fs # post"
    by (auto simp: in_set_conv_decomp)
  from di have "inst \<notin> set (instanceNames post)" unfolding segs by simp
  from tableOf_struct_lookup [OF wf [unfolded segs] this] assignFields_nth [OF df i]
  show ?thesis unfolding segs by simp
qed

lemma minified_renamed:
  assumes wf: "list_all wellFormed segs" and di: "distinct (instanceNames segs)"
    and df: "\<forall>T inst tys fs. Block T inst tys fs \<in> set segs \<longrightarrow> distinct fs"
  shows "minifiedSegments order segs = map (renameSegment (order (tableOf segs))) segs"
  unfolding minifiedSegments_def
proof (rule map_cong [OF refl])
  let ?tbl = "tableOf segs"
  fix seg assume seg: "seg \<in> set segs"
  show "rewriteSegment ?tbl (order ?tbl) seg = renameSegment (order ?tbl) seg"
  proof (cases seg)
    case (Block T inst tys fs)
    with seg have blk: "Block T inst tys fs \<in> set segs" by simp
    with df have dist: "distinct fs" by blast
    have "map (shortOf ?tbl inst) fs = map shortName [0..<length fs]"
    proof (rule nth_equalityI)
      show "length (map (shortOf ?tbl inst) fs) = length (map shortName [0..<length fs])" by simp
    next
      fix i assume "i < length (map (shortOf ?tbl inst) fs)"
      then have i: "i < length fs" by simp
      from shortOf_lookup [OF tableOf_nth [OF wf di blk dist i]] i
      show "map (shortOf ?tbl inst) fs ! i = map shortName [0..<length fs] ! i" by simp
    qed
    with Block show ?thesis by simp
  qed simp_all
qed

lemma tableOf_no_other_key:
  assumes wf: "list_all wellFormed segs"
    and look: "map_of (tableOf segs) (inst @ CHR ''.'' # f) = Some v" and inst: "isIdentifier inst"
  shows "\<exists>T tys fs. Block T inst tys fs \<in> set segs \<and> f \<in> set fs"
proof -
  from look have "(inst @ CHR ''.'' # f, v) \<in> set (updatesOf segs)"
    by (auto simp: map_of_tableOf dest: map_of_SomeD)
  from updates_shape [OF this] obtain T' inst' tys' fs' f' j where
    b': "Block T' inst' tys' fs' \<in> set segs" and f': "f' \<in> set fs'" and
    k: "inst @ CHR ''.'' # f = inst' @ CHR ''.'' # f'" by blast
  have "CHR ''.'' \<notin> set inst" "CHR ''.'' \<notin> set inst'"
    using inst wellFormed_inst [OF wf b'] by simp_all
  from dot_split [OF this k] b' f' show ?thesis by blast
qed

lemma in_instanceNames: "Block T inst tys fs \<in> set segs \<Longrightarrow> inst \<in> set (instanceNames segs)"
  by (induction segs rule: instanceNames.induct) auto

subsection \<open>The minifier returns\<close>

lemma assignFields_keys:
  "\<forall>kv\<in>set fm. fst kv \<noteq> [] \<Longrightarrow> \<forall>kv\<in>set (assignFields s fs g fm). fst kv \<noteq> []"
proof (induction fs arbitrary: g fm)
  case Nil
  then show ?case by simp
next
  case (Cons f fs)
  have "\<forall>kv\<in>set (AList.update (s @ ''.'' @ f) (s @ ''.'' @ g) fm). fst kv \<noteq> []"
    using Cons.prems set_update_subset [of "s @ ''.'' @ f" "s @ ''.'' @ g" fm] by auto
  from Cons.IH [OF this] show ?case by simp
qed

lemma scanStep_keys:
  "\<forall>kv\<in>set (fieldMapping \<sigma>). fst kv \<noteq> [] \<Longrightarrow>
   \<forall>kv\<in>set (fieldMapping (scanStep \<sigma> l)). fst kv \<noteq> []"
  using assignFields_keys [of "fieldMapping \<sigma>"]
  by (auto simp: scanStep_def split: parse_state.splits option.splits defn_line.splits)

lemma scan_keys:
  "\<forall>kv\<in>set (fieldMapping \<sigma>). fst kv \<noteq> [] \<Longrightarrow>
   \<forall>kv\<in>set (fieldMapping (foldl scanStep \<sigma> ls)). fst kv \<noteq> []"
proof (induction ls arbitrary: \<sigma>)
  case Nil
  then show ?case by simp
next
  case (Cons l ls)
  from Cons.IH [OF scanStep_keys [OF Cons.prems]] show ?case by simp
qed

lemma rewriteStep_returns:
  assumes order: "visits_each_entry_once order"
    and keys: "\<forall>kv\<in>set (fieldMapping \<sigma>). fst kv \<noteq> []"
  shows "\<exists>\<sigma>' l'. rewriteStep order \<sigma> l = Some (\<sigma>', l') \<and> (\<forall>kv\<in>set (fieldMapping \<sigma>'). fst kv \<noteq> [])"
proof (cases "state \<sigma>")
  case OUTSIDE
  show ?thesis
  proof (cases "matchHeader l")
    case None
    from keys visits_set [OF order] have "\<forall>kv\<in>set (order (fieldMapping \<sigma>)). fst kv \<noteq> []"
      by simp
    from replaceEach_total [OF this] obtain r where "replaceEach (order (fieldMapping \<sigma>)) l = Some r" ..
    with OUTSIDE None keys show ?thesis by (simp add: rewriteStep_def)
  next
    case (Some T)
    with OUTSIDE keys show ?thesis by (simp add: rewriteStep_def)
  qed
next
  case STRUCT_OPEN
  with keys show ?thesis by (simp add: rewriteStep_def)
next
  case STRUCT_DEFN
  show ?thesis
  proof (cases "classifyDefnLine l")
    case (Close n)
    with STRUCT_DEFN keys show ?thesis by (simp add: rewriteStep_def)
  next
    case Other
    with STRUCT_DEFN keys show ?thesis by (simp add: rewriteStep_def)
  next
    case (Field ty f)
    with STRUCT_DEFN keys show ?thesis
      by (auto simp: rewriteStep_def index_or_insert_def Let_def split: option.splits)
  qed
qed

lemma rewriteLines_returns:
  "visits_each_entry_once order \<Longrightarrow> \<forall>kv\<in>set (fieldMapping \<sigma>). fst kv \<noteq> [] \<Longrightarrow>
   \<exists>r. rewriteLines order \<sigma> ls acc = Some r"
proof (induction ls arbitrary: \<sigma> acc)
  case Nil
  then show ?case by simp
next
  case (Cons l ls)
  from rewriteStep_returns [OF Cons.prems, of l] obtain \<sigma>' l' where
    step: "rewriteStep order \<sigma> l = Some (\<sigma>', l')" and keys: "\<forall>kv\<in>set (fieldMapping \<sigma>'). fst kv \<noteq> []"
    by blast
  from Cons.IH [OF Cons.prems(1) keys, of "acc @ l' @ [CHR 0x0A]"] step show ?case by simp
qed

lemma minifyStructFields_returns:
  assumes "visits_each_entry_once order"
  shows "\<exists>r. minifyStructFields order source = Some r"
proof -
  have "\<forall>kv\<in>set (fieldMapping (foldl scanStep initial_state (codelinesFrom source 0))). fst kv \<noteq> []"
    by (rule scan_keys) (simp add: initial_state_def)
  then have "\<forall>kv\<in>set (fieldMapping ((foldl scanStep initial_state (codelinesFrom source 0))\<lparr>state := OUTSIDE\<rparr>)). fst kv \<noteq> []"
    by simp
  from rewriteLines_returns [OF assms this] show ?thesis
    by (simp add: minifyStructFields_def Let_def)
qed

subsection \<open>What the closing line of a struct does\<close>

lemma scanStep_close:
  assumes "state \<sigma> = STRUCT_DEFN" "classifyDefnLine codeline = Close structName"
  shows "fieldMapping (scanStep \<sigma> codeline) =
           assignFields structName (fields_vec \<sigma>) ''a'' (fieldMapping \<sigma>)"
    and "fields_vec (scanStep \<sigma> codeline) = []"
  using assms by (simp_all add: scanStep_def)

lemma scanStep_field:
  assumes "state \<sigma> = STRUCT_DEFN" "classifyDefnLine codeline = Field typeId fieldId"
  shows "fields_vec (scanStep \<sigma> codeline) = fields_vec \<sigma> @ [fieldId]"
    and "fieldMapping (scanStep \<sigma> codeline) = fieldMapping \<sigma>"
  using assms by (simp_all add: scanStep_def)


lemma distinctFields_iff:
  "list_all distinctFields segs \<longleftrightarrow>
     (\<forall>T inst tys fs. Block T inst tys fs \<in> set segs \<longrightarrow> distinct fs)"
proof (induction segs)
  case Nil
  then show ?case by simp
next
  case (Cons seg segs)
  then show ?case by (cases seg) auto
qed

subsection \<open>The examples\<close>

lemma visits_id: "visits_each_entry_once (\<lambda>m. m)"
  by (simp add: visits_each_entry_once_def)

lemma visits_rev: "visits_each_entry_once rev"
  by (simp add: visits_each_entry_once_def)







lemma two_structs_hyps:
  "codelinesFrom ''precision mediump float;\<newline>\<newline>uniform Light\<newline>{\<newline>float intensity;\<newline>vec3 color;\<newline>} lightBlock;\<newline>uniform sampler2D\<newline>tex;\<newline>uniform Fog\<newline>{\<newline>vec4 color;\<newline>float density;\<newline>} fog;\<newline>\<newline>void main(){ x = lightBlock.intensity * lightBlock.color.r + fog.density * fog.color.a * fog.density; }'' 0 =
   linesOf two_structs"
  "list_all wellFormed two_structs" "distinct (typeNames two_structs)"
  by code_simp+

lemma two_structs_more:
  "distinct (instanceNames two_structs)" "list_all distinctFields two_structs"
  by code_simp+


lemma two_structs_table:
  "foldl assignShortNames [] two_structs =
     [(''lightBlock.intensity'', ''lightBlock.a''), (''lightBlock.color'', ''lightBlock.b''),
      (''fog.color'', ''fog.a''), (''fog.density'', ''fog.b'')]"
  by code_simp

lemma two_structs_renamed:
  "sourceOf (map (renameSegment (rev
     [(''lightBlock.intensity'', ''lightBlock.a''), (''lightBlock.color'', ''lightBlock.b''),
      (''fog.color'', ''fog.a''), (''fog.density'', ''fog.b'')])) two_structs) =
   ''precision mediump float;\<newline>uniform Light\<newline>{\<newline>float a;\<newline>vec3 b;\<newline>} lightBlock;\<newline>uniform sampler2D\<newline>tex;\<newline>uniform Fog\<newline>{\<newline>vec4 a;\<newline>float b;\<newline>} fog;\<newline>void main(){ x = lightBlock.a * lightBlock.b.r + fog.b * fog.a.a * fog.b; }\<newline>''"
  by code_simp

lemma closing_line_example:
  "state (foldl scanStep initial_state [''uniform Light'', ''{'', ''float intensity;'']) = STRUCT_DEFN"
  "classifyDefnLine ''vec3 color;'' = Field ''vec3'' ''color''"
  "fields_vec (foldl scanStep initial_state [''uniform Light'', ''{'', ''float intensity;'']) =
     [''intensity'']"
  "state (foldl scanStep initial_state
     [''uniform Light'', ''{'', ''float intensity;'', ''vec3 color;'']) = STRUCT_DEFN"
  "classifyDefnLine ''} lightBlock;'' = Close ''lightBlock''"
  "fields_vec (foldl scanStep initial_state
     [''uniform Light'', ''{'', ''float intensity;'', ''vec3 color;'']) = [''intensity'', ''color'']"
  "fieldMapping (foldl scanStep initial_state
     [''uniform Light'', ''{'', ''float intensity;'', ''vec3 color;'']) = []"
  by code_simp+

lemma closing_line_names:
  "fold (\<lambda>(f, n). AList.update (''lightBlock'' @ ''.'' @ f) (''lightBlock'' @ ''.'' @ n))
          (zip [''intensity'', ''color''] (map shortName [0..<length [''intensity'', ''color'']])) [] =
        [(''lightBlock.intensity'', ''lightBlock.a''), (''lightBlock.color'', ''lightBlock.b'')]"
  "fold (\<lambda>(f, n). AList.update (''lightBlock'' @ ''.'' @ f) (''lightBlock'' @ ''.'' @ n))
          (zip [''intensity'', ''color''] (generatedNames (length [''intensity'', ''color'']))) [] =
        [(''lightBlock.intensity'', ''lightBlock.a''), (''lightBlock.color'', ''lightBlock.b'')]"
  by code_simp+




lemma three_structs_hyps:
  "codelinesFrom ''uniform Fog\<newline>{\<newline>vec4 color;\<newline>float density;\<newline>} fog;\<newline>uniform Light\<newline>{\<newline>float intensity;\<newline>vec3 color;\<newline>} lightBlock;\<newline>void main(){ x = lightBlock.intensity * lightBlock.color.r; }\<newline>uniform Frame\<newline>{\<newline>float time;\<newline>} frame;\<newline>'' 0 =
   linesOf (three_structs_pre @
      Block ''Light'' ''lightBlock'' [''float'', ''vec3''] [''intensity'', ''color''] # three_structs_post)"
  "list_all wellFormed (three_structs_pre @
      Block ''Light'' ''lightBlock'' [''float'', ''vec3''] [''intensity'', ''color''] # three_structs_post)"
  "''lightBlock'' \<notin> set (instanceNames (three_structs_pre @ three_structs_post))"
  "length [''intensity'', ''color''] \<le> 52"
  by code_simp+

lemma three_structs_more:
  "distinct [''intensity'', ''color'']"
  "distinct (typeNames (three_structs_pre @
      Block ''Light'' ''lightBlock'' [''float'', ''vec3''] [''intensity'', ''color''] # three_structs_post))"
  by code_simp+

lemma three_structs_names: "generatedNames (length [''intensity'', ''color'']) = [''a'', ''b'']"
  by code_simp

lemma three_structs_table:
  "fieldMapping (firstPass ''uniform Fog\<newline>{\<newline>vec4 color;\<newline>float density;\<newline>} fog;\<newline>uniform Light\<newline>{\<newline>float intensity;\<newline>vec3 color;\<newline>} lightBlock;\<newline>void main(){ x = lightBlock.intensity * lightBlock.color.r; }\<newline>uniform Frame\<newline>{\<newline>float time;\<newline>} frame;\<newline>'') =
     [(''fog.color'', ''fog.a''), (''fog.density'', ''fog.b''),
      (''lightBlock.intensity'', ''lightBlock.a''), (''lightBlock.color'', ''lightBlock.b''),
      (''frame.time'', ''frame.a'')]"
  by code_simp

lemma three_structs_output:
  "sourceOf (map (rewriteSegment
        [(''fog.color'', ''fog.a''), (''fog.density'', ''fog.b''),
         (''lightBlock.intensity'', ''lightBlock.a''), (''lightBlock.color'', ''lightBlock.b''),
         (''frame.time'', ''frame.a'')]
        [(''fog.color'', ''fog.a''), (''fog.density'', ''fog.b''),
         (''lightBlock.intensity'', ''lightBlock.a''), (''lightBlock.color'', ''lightBlock.b''),
         (''frame.time'', ''frame.a'')]) three_structs_pre
      @ Block ''Light'' ''lightBlock'' [''float'', ''vec3''] [''a'', ''b'']
      # map (rewriteSegment
        [(''fog.color'', ''fog.a''), (''fog.density'', ''fog.b''),
         (''lightBlock.intensity'', ''lightBlock.a''), (''lightBlock.color'', ''lightBlock.b''),
         (''frame.time'', ''frame.a'')]
        [(''fog.color'', ''fog.a''), (''fog.density'', ''fog.b''),
         (''lightBlock.intensity'', ''lightBlock.a''), (''lightBlock.color'', ''lightBlock.b''),
         (''frame.time'', ''frame.a'')]) three_structs_post) =
   ''uniform Fog\<newline>{\<newline>vec4 a;\<newline>float b;\<newline>} fog;\<newline>uniform Light\<newline>{\<newline>float a;\<newline>vec3 b;\<newline>} lightBlock;\<newline>void main(){ x = lightBlock.a * lightBlock.b.r; }\<newline>uniform Frame\<newline>{\<newline>float a;\<newline>} frame;\<newline>''"
  by code_simp

text \<open>
  The comment above \<open>minifyStructFields\<close> allows an array size after the field name, and
  \<open>consumeArraySize\<close> is there to read it, but no line of the function calls it: a
  field that is declared with an array size is passed over by both passes and keeps its
  name. The statements below are about fields without an array size.
\<close>

lemma array_field_is_passed_over:
  "minifyStructFields (\<lambda>m. m)
     ''uniform L\<newline>{\<newline>float x[4];\<newline>float y;\<newline>} lb;\<newline>v = lb.x[0] + lb.y;\<newline>'' =
   Some ''uniform L\<newline>{\<newline>float x[4];\<newline>float a;\<newline>} lb;\<newline>v = lb.x[0] + lb.a;\<newline>''"
  by code_simp

subsection \<open>The sequence of the short names\<close>

text \<open>
  C7, as stated: after \<open>z\<close> the names go on with \<open>aa\<close>, \<open>bb\<close>, and so on, and the
  sequence is scoped per struct. In the code the name after \<open>z\<close> is \<open>az\<close>: the 27th
  field of a struct is renamed to \<open>az\<close>, not to \<open>aa\<close>. And the sequence starts again
  at a closing line \<open>} name;\<close>, not at a struct: the first struct below is closed by
  \<open>};\<close>, which the code does not take for a closing line, so its field stays in the
  list of recorded fields and the first field of the second struct is renamed to \<open>b\<close>.
  (No line outside the structs is rewritten here, so the order of the table plays no
  part.)
\<close>

theorem short_names_sequence_counterexample:
  "minifyStructFields (\<lambda>m. m) ''uniform L\<newline>{\<newline>float A;\<newline>float B;\<newline>float C;\<newline>float D;\<newline>float E;\<newline>float F;\<newline>float G;\<newline>float H;\<newline>float I;\<newline>float J;\<newline>float K;\<newline>float L;\<newline>float M;\<newline>float N;\<newline>float O;\<newline>float P;\<newline>float Q;\<newline>float R;\<newline>float S;\<newline>float T;\<newline>float U;\<newline>float V;\<newline>float W;\<newline>float X;\<newline>float Y;\<newline>float Z;\<newline>float _;\<newline>} s;\<newline>''
  = Some ''uniform L\<newline>{\<newline>float a;\<newline>float b;\<newline>float c;\<newline>float d;\<newline>float e;\<newline>float f;\<newline>float g;\<newline>float h;\<newline>float i;\<newline>float j;\<newline>float k;\<newline>float l;\<newline>float m;\<newline>float n;\<newline>float o;\<newline>float p;\<newline>float q;\<newline>float r;\<newline>float s;\<newline>float t;\<newline>float u;\<newline>float v;\<newline>float w;\<newline>float x;\<newline>float y;\<newline>float z;\<newline>float az;\<newline>} s;\<newline>''
   \<and> minifyStructFields (\<lambda>m. m) ''uniform A\<newline>{\<newline>float x;\<newline>};\<newline>uniform B\<newline>{\<newline>float y;\<newline>} b;\<newline>'' =
     Some ''uniform A\<newline>{\<newline>float a;\<newline>};\<newline>uniform B\<newline>{\<newline>float b;\<newline>} b;\<newline>''"
  by code_simp

text \<open>
  C7, amended. In the first pass a declaration line that is read inside a struct adds
  its field name at the end of the list of recorded fields. At every closing line
  \<open>} name;\<close> that the pass reads inside a struct, the recorded fields are given their
  short names in the order in which they were recorded, and the list is emptied:
  the field number \<open>i\<close> (from 0) gets the letter number \<open>i mod 26\<close> followed by
  \<open>i div 26\<close> letters \<open>z\<close>, that is \<open>a\<close>, ..., \<open>z\<close>, then \<open>az\<close>, \<open>bz\<close>, ..., \<open>zz\<close>,
  then \<open>azz\<close>, and so on. In a source text whose non-empty lines form well-formed
  segments, the fields recorded at a closing line are the fields of the struct that the
  line closes, so the table of the first pass holds, for each struct in turn, the names
  \<open>a\<close>, \<open>b\<close>, ... in the order of its fields. When moreover no two structs share a type
  name or an instance name and the field names of each struct are pairwise different,
  the text that \<open>minifyStructFields\<close> returns declares the fields of every struct as
  \<open>a\<close>, \<open>b\<close>, ... in the order of the declarations.
\<close>

theorem short_names_per_struct:
  "(state \<sigma> = STRUCT_DEFN \<and> classifyDefnLine fieldLine = Field typeId fieldId \<longrightarrow>
      fields_vec (scanStep \<sigma> fieldLine) = fields_vec \<sigma> @ [fieldId]
      \<and> fieldMapping (scanStep \<sigma> fieldLine) = fieldMapping \<sigma>)
   \<and> (state \<tau> = STRUCT_DEFN \<and> classifyDefnLine closingLine = Close structName \<longrightarrow>
      fieldMapping (scanStep \<tau> closingLine) =
        fold (\<lambda>(f, n). AList.update (structName @ ''.'' @ f) (structName @ ''.'' @ n))
          (zip (fields_vec \<tau>) (map shortName [0..<length (fields_vec \<tau>)])) (fieldMapping \<tau>)
      \<and> fields_vec (scanStep \<tau> closingLine) = [])
   \<and> map shortName [0..<26] = map (\<lambda>c. [c]) ''abcdefghijklmnopqrstuvwxyz''
   \<and> map shortName [26..<52] = map (\<lambda>c. [c, CHR ''z'']) ''abcdefghijklmnopqrstuvwxyz''
   \<and> (codelinesFrom source 0 = linesOf segs \<and> list_all wellFormed segs \<longrightarrow>
        fieldMapping (firstPass source) = foldl assignShortNames [] segs
        \<and> (visits_each_entry_once order \<and> distinct (typeNames segs) \<and>
           distinct (instanceNames segs) \<and> list_all distinctFields segs \<longrightarrow>
             minifyStructFields order source =
               Some (sourceOf (map (renameSegment (order (foldl assignShortNames [] segs))) segs))))"
proof -
  have f: "fields_vec (scanStep \<sigma> fieldLine) = fields_vec \<sigma> @ [fieldId]
      \<and> fieldMapping (scanStep \<sigma> fieldLine) = fieldMapping \<sigma>"
    if "state \<sigma> = STRUCT_DEFN" "classifyDefnLine fieldLine = Field typeId fieldId"
    using scanStep_field [OF that] by simp
  have 0: "fieldMapping (scanStep \<tau> closingLine) =
        fold (\<lambda>(f, n). AList.update (structName @ ''.'' @ f) (structName @ ''.'' @ n))
          (zip (fields_vec \<tau>) (map shortName [0..<length (fields_vec \<tau>)])) (fieldMapping \<tau>)
      \<and> fields_vec (scanStep \<tau> closingLine) = []"
    if "state \<tau> = STRUCT_DEFN" "classifyDefnLine closingLine = Close structName"
    using scanStep_close [OF that] assignFields_fold [of structName "fields_vec \<tau>" 0 "fieldMapping \<tau>"]
    by (simp add: shortName_0)
  have 1: "fieldMapping (firstPass source) = foldl assignShortNames [] segs"
    if "codelinesFrom source 0 = linesOf segs" "list_all wellFormed segs"
    using firstPass_source(3) [OF that] by (simp add: tableOf_shortNames)
  have 2: "minifyStructFields order source =
              Some (sourceOf (map (renameSegment (order (foldl assignShortNames [] segs))) segs))"
    if cl: "codelinesFrom source 0 = linesOf segs" and wf: "list_all wellFormed segs"
      and "visits_each_entry_once order" "distinct (typeNames segs)"
       "distinct (instanceNames segs)" "list_all distinctFields segs"
  proof -
    from that(6) have "\<forall>T inst tys fs. Block T inst tys fs \<in> set segs \<longrightarrow> distinct fs"
      by (simp add: distinctFields_iff)
    from minified_renamed [OF wf that(5) this, of order]
      minify_source [OF cl wf that(4,3)]
    show ?thesis by (simp add: tableOf_shortNames)
  qed
  from f 0 1 2 shortName_first_26 shortName_next_26 show ?thesis by blast
qed

theorem short_names_per_struct_witness:
  "fields_vec (scanStep (foldl scanStep initial_state [''uniform Light'', ''{'', ''float intensity;''])
      ''vec3 color;'') = [''intensity'', ''color'']
   \<and> fieldMapping (scanStep (foldl scanStep initial_state
        [''uniform Light'', ''{'', ''float intensity;'', ''vec3 color;'']) ''} lightBlock;'') =
     [(''lightBlock.intensity'', ''lightBlock.a''), (''lightBlock.color'', ''lightBlock.b'')]
   \<and> fieldMapping (firstPass
     ''precision mediump float;\<newline>\<newline>uniform Light\<newline>{\<newline>float intensity;\<newline>vec3 color;\<newline>} lightBlock;\<newline>uniform sampler2D\<newline>tex;\<newline>uniform Fog\<newline>{\<newline>vec4 color;\<newline>float density;\<newline>} fog;\<newline>\<newline>void main(){ x = lightBlock.intensity * lightBlock.color.r + fog.density * fog.color.a * fog.density; }'') =
     [(''lightBlock.intensity'', ''lightBlock.a''), (''lightBlock.color'', ''lightBlock.b''),
      (''fog.color'', ''fog.a''), (''fog.density'', ''fog.b'')]
   \<and> minifyStructFields rev
     ''precision mediump float;\<newline>\<newline>uniform Light\<newline>{\<newline>float intensity;\<newline>vec3 color;\<newline>} lightBlock;\<newline>uniform sampler2D\<newline>tex;\<newline>uniform Fog\<newline>{\<newline>vec4 color;\<newline>float density;\<newline>} fog;\<newline>\<newline>void main(){ x = lightBlock.intensity * lightBlock.color.r + fog.density * fog.color.a * fog.density; }'' =
   Some ''precision mediump float;\<newline>uniform Light\<newline>{\<newline>float a;\<newline>vec3 b;\<newline>} lightBlock;\<newline>uniform sampler2D\<newline>tex;\<newline>uniform Fog\<newline>{\<newline>vec4 a;\<newline>float b;\<newline>} fog;\<newline>void main(){ x = lightBlock.a * lightBlock.b.r + fog.b * fog.a.a * fog.b; }\<newline>''"
proof -
  note th = short_names_per_struct
    [of "foldl scanStep initial_state [''uniform Light'', ''{'', ''float intensity;'']"
        "''vec3 color;''" "''vec3''" "''color''"
        "foldl scanStep initial_state [''uniform Light'', ''{'', ''float intensity;'', ''vec3 color;'']"
        "''} lightBlock;''" "''lightBlock''"
        "''precision mediump float;\<newline>\<newline>uniform Light\<newline>{\<newline>float intensity;\<newline>vec3 color;\<newline>} lightBlock;\<newline>uniform sampler2D\<newline>tex;\<newline>uniform Fog\<newline>{\<newline>vec4 color;\<newline>float density;\<newline>} fog;\<newline>\<newline>void main(){ x = lightBlock.intensity * lightBlock.color.r + fog.density * fog.color.a * fog.density; }''"
        two_structs rev]
  from th closing_line_example(1,2)
  have "fields_vec (scanStep (foldl scanStep initial_state [''uniform Light'', ''{'', ''float intensity;''])
      ''vec3 color;'') =
      fields_vec (foldl scanStep initial_state [''uniform Light'', ''{'', ''float intensity;'']) @ [''color'']"
    by blast
  then have 0: "fields_vec (scanStep (foldl scanStep initial_state [''uniform Light'', ''{'', ''float intensity;''])
      ''vec3 color;'') = [''intensity'', ''color'']"
    unfolding closing_line_example(3) by simp
  from th closing_line_example(4,5)
  have "fieldMapping (scanStep (foldl scanStep initial_state
        [''uniform Light'', ''{'', ''float intensity;'', ''vec3 color;'']) ''} lightBlock;'') =
     fold (\<lambda>(f, n). AList.update (''lightBlock'' @ ''.'' @ f) (''lightBlock'' @ ''.'' @ n))
          (zip (fields_vec (foldl scanStep initial_state
                  [''uniform Light'', ''{'', ''float intensity;'', ''vec3 color;'']))
            (map shortName [0..<length (fields_vec (foldl scanStep initial_state
                  [''uniform Light'', ''{'', ''float intensity;'', ''vec3 color;'']))]))
          (fieldMapping (foldl scanStep initial_state
                  [''uniform Light'', ''{'', ''float intensity;'', ''vec3 color;'']))"
    by blast
  then have 1: "fieldMapping (scanStep (foldl scanStep initial_state
        [''uniform Light'', ''{'', ''float intensity;'', ''vec3 color;'']) ''} lightBlock;'') =
     [(''lightBlock.intensity'', ''lightBlock.a''), (''lightBlock.color'', ''lightBlock.b'')]"
    unfolding closing_line_example(6,7) closing_line_names(1) .
  from th two_structs_hyps two_structs_more visits_rev
  have 2: "fieldMapping (firstPass
     ''precision mediump float;\<newline>\<newline>uniform Light\<newline>{\<newline>float intensity;\<newline>vec3 color;\<newline>} lightBlock;\<newline>uniform sampler2D\<newline>tex;\<newline>uniform Fog\<newline>{\<newline>vec4 color;\<newline>float density;\<newline>} fog;\<newline>\<newline>void main(){ x = lightBlock.intensity * lightBlock.color.r + fog.density * fog.color.a * fog.density; }'') =
       foldl assignShortNames [] two_structs"
    and 3: "minifyStructFields rev
     ''precision mediump float;\<newline>\<newline>uniform Light\<newline>{\<newline>float intensity;\<newline>vec3 color;\<newline>} lightBlock;\<newline>uniform sampler2D\<newline>tex;\<newline>uniform Fog\<newline>{\<newline>vec4 color;\<newline>float density;\<newline>} fog;\<newline>\<newline>void main(){ x = lightBlock.intensity * lightBlock.color.r + fog.density * fog.color.a * fog.density; }'' =
       Some (sourceOf (map (renameSegment (rev (foldl assignShortNames [] two_structs))) two_structs))"
    by blast+
  from 0 1 2 3 show ?thesis
    unfolding two_structs_table two_structs_renamed by blast
qed

subsection \<open>The short names of one instance\<close>

text \<open>
  C8, as stated: the short names of a struct instance are pairwise distinct, so that the
  mapping is injective for each instance. When two structs of a text are declared with
  the same instance name \<open>s\<close>, the first pass maps the field \<open>x\<close> of the first and the
  field \<open>y\<close> of the second both to \<open>s.a\<close>, and the uses \<open>s.x\<close> and \<open>s.y\<close> become the
  same text, whatever the order in which the table is visited.
\<close>

theorem short_names_distinct_counterexample:
  "fieldMapping (firstPass ''uniform A\<newline>{\<newline>float x;\<newline>} s;\<newline>uniform B\<newline>{\<newline>float y;\<newline>} s;\<newline>v = s.x + s.y;\<newline>'') =
     [(''s.x'', ''s.a''), (''s.y'', ''s.a'')]
   \<and> minifyStructFields (\<lambda>m. m) ''uniform A\<newline>{\<newline>float x;\<newline>} s;\<newline>uniform B\<newline>{\<newline>float y;\<newline>} s;\<newline>v = s.x + s.y;\<newline>'' =
     Some ''uniform A\<newline>{\<newline>float a;\<newline>} s;\<newline>uniform B\<newline>{\<newline>float a;\<newline>} s;\<newline>v = s.a + s.a;\<newline>''
   \<and> minifyStructFields rev ''uniform A\<newline>{\<newline>float x;\<newline>} s;\<newline>uniform B\<newline>{\<newline>float y;\<newline>} s;\<newline>v = s.x + s.y;\<newline>'' =
     Some ''uniform A\<newline>{\<newline>float a;\<newline>} s;\<newline>uniform B\<newline>{\<newline>float a;\<newline>} s;\<newline>v = s.a + s.a;\<newline>''"
  by code_simp

text \<open>
  C8, amended. At every closing line \<open>} name;\<close> that the first pass reads inside a
  struct with \<open>N \<le> 52\<close> recorded fields, the loop assigns the \<open>i\<close>-th recorded field
  the \<open>i\<close>-th generated name; the \<open>N\<close> generated names are pairwise distinct, so they
  form a set of \<open>N\<close> elements, and in the table as that line leaves it two different
  recorded fields of the instance have different short names. In a source text whose
  non-empty lines form well-formed segments, for a struct whose instance name no other
  struct of the text has, this is still so in the table at the end of the first pass:
  different fields of the instance have different short names, the instance has no
  entry but those of the struct, with pairwise different field names the \<open>i\<close>-th field
  has the \<open>i\<close>-th generated name, and (when no two structs share a type name) the text
  that \<open>minifyStructFields\<close> returns declares the fields of the struct with these \<open>N\<close>
  names. (The bound is the claim's; the proof does not need it.)
\<close>

theorem short_names_distinct_per_instance:
  "(state \<tau> = STRUCT_DEFN \<and> classifyDefnLine closingLine = Close structName \<and>
    length (fields_vec \<tau>) \<le> 52 \<longrightarrow>
      fieldMapping (scanStep \<tau> closingLine) =
        fold (\<lambda>(f, n). AList.update (structName @ ''.'' @ f) (structName @ ''.'' @ n))
          (zip (fields_vec \<tau>) (generatedNames (length (fields_vec \<tau>)))) (fieldMapping \<tau>)
      \<and> distinct (generatedNames (length (fields_vec \<tau>)))
      \<and> card (set (generatedNames (length (fields_vec \<tau>)))) = length (fields_vec \<tau>)
      \<and> (\<forall>f\<in>set (fields_vec \<tau>). \<forall>f'\<in>set (fields_vec \<tau>). f \<noteq> f' \<longrightarrow>
            map_of (fieldMapping (scanStep \<tau> closingLine)) (structName @ ''.'' @ f)
              \<noteq> map_of (fieldMapping (scanStep \<tau> closingLine)) (structName @ ''.'' @ f')))
   \<and> (codelinesFrom source 0 = linesOf (pre @ Block T inst tys fs # post) \<and>
      list_all wellFormed (pre @ Block T inst tys fs # post) \<and>
      inst \<notin> set (instanceNames (pre @ post)) \<and> length fs \<le> 52 \<longrightarrow>
        (\<forall>f\<in>set fs. \<forall>f'\<in>set fs. f \<noteq> f' \<longrightarrow>
            map_of (fieldMapping (firstPass source)) (inst @ ''.'' @ f)
              \<noteq> map_of (fieldMapping (firstPass source)) (inst @ ''.'' @ f'))
        \<and> (\<forall>f. f \<notin> set fs \<longrightarrow> map_of (fieldMapping (firstPass source)) (inst @ ''.'' @ f) = None)
        \<and> (distinct fs \<longrightarrow>
             (\<forall>i<length fs. map_of (fieldMapping (firstPass source)) (inst @ ''.'' @ fs ! i) =
                 Some (inst @ ''.'' @ generatedNames (length fs) ! i))
             \<and> (distinct (typeNames (pre @ Block T inst tys fs # post)) \<and>
                visits_each_entry_once order \<longrightarrow>
                  minifyStructFields order source =
                    Some (sourceOf
                      (map (rewriteSegment (fieldMapping (firstPass source))
                              (order (fieldMapping (firstPass source)))) pre
                       @ Block T inst tys (generatedNames (length fs))
                       # map (rewriteSegment (fieldMapping (firstPass source))
                              (order (fieldMapping (firstPass source)))) post)))))"
proof -
  have A: "fieldMapping (scanStep \<tau> closingLine) =
        fold (\<lambda>(f, n). AList.update (structName @ ''.'' @ f) (structName @ ''.'' @ n))
          (zip (fields_vec \<tau>) (generatedNames (length (fields_vec \<tau>)))) (fieldMapping \<tau>)
      \<and> distinct (generatedNames (length (fields_vec \<tau>)))
      \<and> card (set (generatedNames (length (fields_vec \<tau>)))) = length (fields_vec \<tau>)
      \<and> (\<forall>f\<in>set (fields_vec \<tau>). \<forall>f'\<in>set (fields_vec \<tau>). f \<noteq> f' \<longrightarrow>
            map_of (fieldMapping (scanStep \<tau> closingLine)) (structName @ ''.'' @ f)
              \<noteq> map_of (fieldMapping (scanStep \<tau> closingLine)) (structName @ ''.'' @ f'))"
    if st: "state \<tau> = STRUCT_DEFN" "classifyDefnLine closingLine = Close structName"
  proof -
    let ?fs = "fields_vec \<tau>"
    have 1: "fieldMapping (scanStep \<tau> closingLine) =
        fold (\<lambda>(f, n). AList.update (structName @ ''.'' @ f) (structName @ ''.'' @ n))
          (zip ?fs (generatedNames (length ?fs))) (fieldMapping \<tau>)"
      using scanStep_close(1) [OF st] assignFields_fold [of structName ?fs 0 "fieldMapping \<tau>"]
      by (simp add: shortName_0 generatedNames_shortName)
    have 2: "distinct (generatedNames (length ?fs))" by (rule distinct_generatedNames)
    have "length (generatedNames (length ?fs)) = length ?fs" by (simp add: generatedNames_def)
    with distinct_card [OF 2] have 3: "card (set (generatedNames (length ?fs))) = length ?fs"
      by (simp only:)
    have 4: "\<forall>f\<in>set ?fs. \<forall>f'\<in>set ?fs. f \<noteq> f' \<longrightarrow>
            map_of (fieldMapping (scanStep \<tau> closingLine)) (structName @ ''.'' @ f)
              \<noteq> map_of (fieldMapping (scanStep \<tau> closingLine)) (structName @ ''.'' @ f')"
      unfolding scanStep_close(1) [OF st] using assignFields_injective by blast
    from 1 2 3 4 show ?thesis by blast
  qed
  have B: "(\<forall>f\<in>set fs. \<forall>f'\<in>set fs. f \<noteq> f' \<longrightarrow>
            map_of (fieldMapping (firstPass source)) (inst @ ''.'' @ f)
              \<noteq> map_of (fieldMapping (firstPass source)) (inst @ ''.'' @ f'))
        \<and> (\<forall>f. f \<notin> set fs \<longrightarrow> map_of (fieldMapping (firstPass source)) (inst @ ''.'' @ f) = None)
        \<and> (distinct fs \<longrightarrow>
             (\<forall>i<length fs. map_of (fieldMapping (firstPass source)) (inst @ ''.'' @ fs ! i) =
                 Some (inst @ ''.'' @ generatedNames (length fs) ! i))
             \<and> (distinct (typeNames (pre @ Block T inst tys fs # post)) \<and>
                visits_each_entry_once order \<longrightarrow>
                  minifyStructFields order source =
                    Some (sourceOf
                      (map (rewriteSegment (fieldMapping (firstPass source))
                              (order (fieldMapping (firstPass source)))) pre
                       @ Block T inst tys (generatedNames (length fs))
                       # map (rewriteSegment (fieldMapping (firstPass source))
                              (order (fieldMapping (firstPass source)))) post))))"
    if cl: "codelinesFrom source 0 = linesOf (pre @ Block T inst tys fs # post)"
      and wf: "list_all wellFormed (pre @ Block T inst tys fs # post)"
      and uniq: "inst \<notin> set (instanceNames (pre @ post))"
  proof -
    let ?segs = "pre @ Block T inst tys fs # post"
    from wf have inst: "isIdentifier inst" by simp
    from uniq have later: "inst \<notin> set (instanceNames post)"
      and earlier: "inst \<notin> set (instanceNames pre)" by simp_all
    have tbl: "fieldMapping (firstPass source) = tableOf ?segs"
      using cl wf by (rule firstPass_source(3))
    have look: "map_of (tableOf ?segs) (inst @ CHR ''.'' # f) =
        map_of (assignFields inst fs ''a'' (tableOf pre)) (inst @ CHR ''.'' # f)" for f
      using wf later by (rule tableOf_struct_lookup)
    have 1: "\<forall>f\<in>set fs. \<forall>f'\<in>set fs. f \<noteq> f' \<longrightarrow>
               map_of (fieldMapping (firstPass source)) (inst @ ''.'' @ f)
                 \<noteq> map_of (fieldMapping (firstPass source)) (inst @ ''.'' @ f')"
      unfolding tbl using assignFields_injective [of _ fs _ inst "tableOf pre"] look by simp
    have 2: "map_of (fieldMapping (firstPass source)) (inst @ ''.'' @ f) = None"
      if f: "f \<notin> set fs" for f
    proof (cases "map_of (tableOf ?segs) (inst @ CHR ''.'' # f)")
      case None
      then show ?thesis unfolding tbl by simp
    next
      case (Some v)
      from tableOf_no_other_key [OF wf Some inst] obtain T' tys' fs' where
        b: "Block T' inst tys' fs' \<in> set ?segs" and f': "f \<in> set fs'" by blast
      from b earlier later have "Block T' inst tys' fs' = Block T inst tys fs"
        by (auto dest: in_instanceNames)
      with f f' show ?thesis by simp
    qed
    have 3: "map_of (fieldMapping (firstPass source)) (inst @ ''.'' @ fs ! i) =
                 Some (inst @ ''.'' @ generatedNames (length fs) ! i)"
      if "distinct fs" "i < length fs" for i
      unfolding tbl using look [of "fs ! i"] assignFields_nth [OF that, of inst "tableOf pre"] that(2)
      by (simp add: generatedNames_shortName)
    have 4: "minifyStructFields order source =
                    Some (sourceOf
                      (map (rewriteSegment (fieldMapping (firstPass source))
                              (order (fieldMapping (firstPass source)))) pre
                       @ Block T inst tys (generatedNames (length fs))
                       # map (rewriteSegment (fieldMapping (firstPass source))
                              (order (fieldMapping (firstPass source)))) post))"
      if df: "distinct fs" and dt: "distinct (typeNames ?segs)" and ord: "visits_each_entry_once order"
    proof -
      have "map (shortOf (tableOf ?segs) inst) fs = generatedNames (length fs)"
      proof (rule nth_equalityI)
        show "length (map (shortOf (tableOf ?segs) inst) fs) = length (generatedNames (length fs))"
          by (simp add: generatedNames_def)
      next
        fix i assume "i < length (map (shortOf (tableOf ?segs) inst) fs)"
        then have i: "i < length fs" by simp
        from 3 [OF df i] have
          "map_of (tableOf ?segs) (inst @ CHR ''.'' # fs ! i) =
             Some (inst @ CHR ''.'' # generatedNames (length fs) ! i)"
          unfolding tbl by simp
        from shortOf_lookup [OF this] i
        show "map (shortOf (tableOf ?segs) inst) fs ! i = generatedNames (length fs) ! i" by simp
      qed
      then have "minifiedSegments order ?segs =
          map (rewriteSegment (tableOf ?segs) (order (tableOf ?segs))) pre
          @ Block T inst tys (generatedNames (length fs))
          # map (rewriteSegment (tableOf ?segs) (order (tableOf ?segs))) post"
        by (simp add: minifiedSegments_def)
      with minify_source [OF cl wf dt ord] show ?thesis unfolding tbl by simp
    qed
    from 1 2 3 4 show ?thesis by blast
  qed
  from A B show ?thesis by blast
qed

theorem short_names_distinct_per_instance_witness:
  "fieldMapping (scanStep (foldl scanStep initial_state
        [''uniform Light'', ''{'', ''float intensity;'', ''vec3 color;'']) ''} lightBlock;'') =
     [(''lightBlock.intensity'', ''lightBlock.a''), (''lightBlock.color'', ''lightBlock.b'')]
   \<and> map_of (fieldMapping (firstPass ''uniform Fog\<newline>{\<newline>vec4 color;\<newline>float density;\<newline>} fog;\<newline>uniform Light\<newline>{\<newline>float intensity;\<newline>vec3 color;\<newline>} lightBlock;\<newline>void main(){ x = lightBlock.intensity * lightBlock.color.r; }\<newline>uniform Frame\<newline>{\<newline>float time;\<newline>} frame;\<newline>''))
        ''lightBlock.intensity'' = Some ''lightBlock.a''
   \<and> map_of (fieldMapping (firstPass ''uniform Fog\<newline>{\<newline>vec4 color;\<newline>float density;\<newline>} fog;\<newline>uniform Light\<newline>{\<newline>float intensity;\<newline>vec3 color;\<newline>} lightBlock;\<newline>void main(){ x = lightBlock.intensity * lightBlock.color.r; }\<newline>uniform Frame\<newline>{\<newline>float time;\<newline>} frame;\<newline>''))
        ''lightBlock.color'' = Some ''lightBlock.b''
   \<and> map_of (fieldMapping (firstPass ''uniform Fog\<newline>{\<newline>vec4 color;\<newline>float density;\<newline>} fog;\<newline>uniform Light\<newline>{\<newline>float intensity;\<newline>vec3 color;\<newline>} lightBlock;\<newline>void main(){ x = lightBlock.intensity * lightBlock.color.r; }\<newline>uniform Frame\<newline>{\<newline>float time;\<newline>} frame;\<newline>''))
        ''lightBlock.time'' = None
   \<and> minifyStructFields (\<lambda>m. m) ''uniform Fog\<newline>{\<newline>vec4 color;\<newline>float density;\<newline>} fog;\<newline>uniform Light\<newline>{\<newline>float intensity;\<newline>vec3 color;\<newline>} lightBlock;\<newline>void main(){ x = lightBlock.intensity * lightBlock.color.r; }\<newline>uniform Frame\<newline>{\<newline>float time;\<newline>} frame;\<newline>'' =
     Some ''uniform Fog\<newline>{\<newline>vec4 a;\<newline>float b;\<newline>} fog;\<newline>uniform Light\<newline>{\<newline>float a;\<newline>vec3 b;\<newline>} lightBlock;\<newline>void main(){ x = lightBlock.a * lightBlock.b.r; }\<newline>uniform Frame\<newline>{\<newline>float a;\<newline>} frame;\<newline>''"
proof -
  note th = short_names_distinct_per_instance
    [of "foldl scanStep initial_state [''uniform Light'', ''{'', ''float intensity;'', ''vec3 color;'']"
        "''} lightBlock;''" "''lightBlock''"
        "''uniform Fog\<newline>{\<newline>vec4 color;\<newline>float density;\<newline>} fog;\<newline>uniform Light\<newline>{\<newline>float intensity;\<newline>vec3 color;\<newline>} lightBlock;\<newline>void main(){ x = lightBlock.intensity * lightBlock.color.r; }\<newline>uniform Frame\<newline>{\<newline>float time;\<newline>} frame;\<newline>''"
        three_structs_pre "''Light''" "''lightBlock''" "[''float'', ''vec3'']" "[''intensity'', ''color'']"
        three_structs_post "\<lambda>m. m"]
  have len: "length (fields_vec (foldl scanStep initial_state
        [''uniform Light'', ''{'', ''float intensity;'', ''vec3 color;''])) \<le> 52"
    unfolding closing_line_example(6) by simp
  from th closing_line_example(4,5) len
  have "fieldMapping (scanStep (foldl scanStep initial_state
        [''uniform Light'', ''{'', ''float intensity;'', ''vec3 color;'']) ''} lightBlock;'') =
     fold (\<lambda>(f, n). AList.update (''lightBlock'' @ ''.'' @ f) (''lightBlock'' @ ''.'' @ n))
          (zip (fields_vec (foldl scanStep initial_state
                  [''uniform Light'', ''{'', ''float intensity;'', ''vec3 color;'']))
            (generatedNames (length (fields_vec (foldl scanStep initial_state
                  [''uniform Light'', ''{'', ''float intensity;'', ''vec3 color;''])))))
          (fieldMapping (foldl scanStep initial_state
                  [''uniform Light'', ''{'', ''float intensity;'', ''vec3 color;'']))"
    by blast
  then have 1: "fieldMapping (scanStep (foldl scanStep initial_state
        [''uniform Light'', ''{'', ''float intensity;'', ''vec3 color;'']) ''} lightBlock;'') =
     [(''lightBlock.intensity'', ''lightBlock.a''), (''lightBlock.color'', ''lightBlock.b'')]"
    unfolding closing_line_example(6,7) closing_line_names(2) .
  let ?src = "''uniform Fog\<newline>{\<newline>vec4 color;\<newline>float density;\<newline>} fog;\<newline>uniform Light\<newline>{\<newline>float intensity;\<newline>vec3 color;\<newline>} lightBlock;\<newline>void main(){ x = lightBlock.intensity * lightBlock.color.r; }\<newline>uniform Frame\<newline>{\<newline>float time;\<newline>} frame;\<newline>''"
  from th three_structs_hyps three_structs_more visits_id
  have 2: "\<forall>i<length [''intensity'', ''color'']. map_of (fieldMapping (firstPass ?src))
            (''lightBlock'' @ ''.'' @ [''intensity'', ''color''] ! i) =
            Some (''lightBlock'' @ ''.'' @ generatedNames (length [''intensity'', ''color'']) ! i)"
    and 3: "\<forall>f. f \<notin> set [''intensity'', ''color''] \<longrightarrow>
            map_of (fieldMapping (firstPass ?src)) (''lightBlock'' @ ''.'' @ f) = None"
    and 4: "minifyStructFields (\<lambda>m. m) ?src =
              Some (sourceOf
                (map (rewriteSegment (fieldMapping (firstPass ?src))
                        (fieldMapping (firstPass ?src))) three_structs_pre
                 @ Block ''Light'' ''lightBlock'' [''float'', ''vec3'']
                     (generatedNames (length [''intensity'', ''color'']))
                 # map (rewriteSegment (fieldMapping (firstPass ?src))
                        (fieldMapping (firstPass ?src))) three_structs_post))"
    by blast+
  from 2 [unfolded three_structs_names] have 5:
    "map_of (fieldMapping (firstPass ?src)) ''lightBlock.intensity'' = Some ''lightBlock.a''"
    "map_of (fieldMapping (firstPass ?src)) ''lightBlock.color'' = Some ''lightBlock.b''"
    by (simp_all add: All_less_Suc numeral_2_eq_2)
  from 3 [rule_format, of "''time''"]
  have 6: "map_of (fieldMapping (firstPass ?src)) ''lightBlock.time'' = None"
    by simp
  from 4 have 7: "minifyStructFields (\<lambda>m. m) ?src =
     Some ''uniform Fog\<newline>{\<newline>vec4 a;\<newline>float b;\<newline>} fog;\<newline>uniform Light\<newline>{\<newline>float a;\<newline>vec3 b;\<newline>} lightBlock;\<newline>void main(){ x = lightBlock.a * lightBlock.b.r; }\<newline>uniform Frame\<newline>{\<newline>float a;\<newline>} frame;\<newline>''"
    unfolding three_structs_names three_structs_table three_structs_output .
  from 1 5 6 7 show ?thesis by blast
qed

subsection \<open>One run of the minifier\<close>




subsection \<open>Two runs of the minifier\<close>




section \<open>Properties of the pipeline: a failing optimizer run\<close>

text \<open>
  The text that \<open>process\<close> hands to the caller has gone through \<open>shrinkString\<close> and
  \<open>minifyStructFields\<close>: the post-processing returns exactly when the text is empty or
  ends with a newline, and it leaves the other outputs as they are.
\<close>

lemma postProcessGlsl_returns:
  assumes "visits_each_entry_once (table_order env)"
  shows "(\<exists>st'. postProcessGlsl env self st = Inr st') \<longleftrightarrow>
           (case mGlslOutput st of None \<Rightarrow> True | Some glsl \<Rightarrow> glsl = [] \<or> last glsl = CHR 0x0A)"
proof (cases "mGlslOutput st")
  case None
  then show ?thesis by (simp add: postProcessGlsl_def)
next
  case (Some glsl)
  show ?thesis
  proof (cases "glsl = [] \<or> last glsl = CHR 0x0A")
    case True
    from shrinkString_returns [OF this] obtain g where g: "shrinkString glsl = Inr g" ..
    from minifyStructFields_returns [OF assms, of g] obtain m where
      "minifyStructFields (table_order env) g = Some m" ..
    with Some g True show ?thesis by (simp add: postProcessGlsl_def)
  next
    case False
    then have "shrinkString glsl = Inl OutOfBounds" by (intro shrinkString_runs_past_end) simp_all
    with Some False show ?thesis by (simp add: postProcessGlsl_def)
  qed
qed

lemma postProcessGlsl_result:
  "postProcessGlsl env self st = Inr st' \<Longrightarrow>
   mSpirvOutput st' = mSpirvOutput st \<and> mMslOutput st' = mMslOutput st \<and>
   (\<exists>evs. events st' = events st @ evs \<and> RemapDCE \<notin> set evs) \<and>
   (case mGlslOutput st of
      None \<Rightarrow> mGlslOutput st' = None
    | Some glsl \<Rightarrow> \<exists>g m. shrinkString glsl = Inr g \<and>
         minifyStructFields (table_order env) g = Some m \<and> mGlslOutput st' = Some m)"
  by (auto simp: postProcessGlsl_def emit_def split: option.splits sum.splits)

lemma process_optimizer_failure:
  assumes level: "mOptimization self = SIZE \<or> mOptimization self = PERFORMANCE"
    and parse: "fe_parse env src config (if outputSpirv \<noteq> None then VULKAN else OPENGL)
                  (mOptimization self)"
    and link: "fe_link env src config (if outputSpirv \<noteq> None then VULKAN else OPENGL)"
    and run: "opt_Run env (createOptimizer (mOptimization self) config)
                (fe_GlslangToSpv env src
                   (if shaderType config = VERTEX then EShLangVertex else EShLangFragment)
                   (mGenerateDebugInfo self) []) = (False, blob)"
  shows "process env self src config outputGlsl outputSpirv outputMsl =
     (case (if outputMsl \<noteq> None
            then map_sum id Some (shrinkString (cross_compileMSL env blob (mslOptionsOf config)))
            else Inr None) of
        Inl e \<Rightarrow> Inl e
      | Inr msl \<Rightarrow>
          map_sum id (Pair True)
            (postProcessGlsl env self
               \<lparr>mGlslOutput =
                  (if outputGlsl \<noteq> None
                   then Some (cross_compileGLSL env blob (glslOptionsOf config)
                                (if shaderType config \<noteq> VERTEX \<and> es (glslOptionsOf config)
                                 then subpassInputToColorLocation config else []))
                   else None),
                mSpirvOutput = (if outputSpirv \<noteq> None then Some blob else None),
                mMslOutput = msl,
                events = [FrontEndParse, FrontEndLink, LowerToSpirv,
                          OptimizerRun (createOptimizer (mOptimization self) config),
                          LogError ''SPIR-V optimizer pass failed'']
                         @ (if outputMsl \<noteq> None then [CompileMSL] else [])
                         @ (if outputGlsl \<noteq> None then [CompileGLSL] else [])\<rparr>))"
proof -
  have sz: ?thesis if "mOptimization self = SIZE"
    using that parse link run
    by (cases outputGlsl; cases outputSpirv; cases outputMsl;
        cases "shrinkString (cross_compileMSL env blob (mslOptionsOf config))";
        simp add: process_def process_compile_def fullOptimization_def optimizeSpirv_def
          SpvToMsl_def emit_def Let_def)
  have pf: ?thesis if "mOptimization self = PERFORMANCE"
    using that parse link run
    by (cases outputGlsl; cases outputSpirv; cases outputMsl;
        cases "shrinkString (cross_compileMSL env blob (mslOptionsOf config))";
        simp add: process_def process_compile_def fullOptimization_def optimizeSpirv_def
          SpvToMsl_def emit_def Let_def)
  from level sz pf show ?thesis by blast
qed

lemma stub_postProcess:
  "postProcessGlsl (stub_env False) (stub_processor SIZE)
     \<lparr>mGlslOutput = Some ''void main(){}\<newline>'', mSpirvOutput = Some [1, 2, 3, 4],
      mMslOutput = Some ''kernel void main0(){}\<newline>'',
      events = [FrontEndParse, FrontEndLink, LowerToSpirv,
                OptimizerRun (createOptimizer SIZE stub_config),
                LogError ''SPIR-V optimizer pass failed'', CompileMSL, CompileGLSL]\<rparr> =
   Inr \<lparr>mGlslOutput = Some ''void main(){}\<newline>'', mSpirvOutput = Some [1, 2, 3, 4],
      mMslOutput = Some ''kernel void main0(){}\<newline>'',
      events = [FrontEndParse, FrontEndLink, LowerToSpirv,
                OptimizerRun (createOptimizer SIZE stub_config),
                LogError ''SPIR-V optimizer pass failed'', CompileMSL, CompileGLSL]\<rparr>"
  by code_simp

lemma stub_shrink_msl: "shrinkString ''kernel void main0(){}\<newline>'' = Inr ''kernel void main0(){}\<newline>''"
  by code_simp

text \<open>
  C5, as stated: when the optimizer run fails, the IR blob and the secondary-language
  text are not produced. The code does produce them: with a failing optimizer, a call at
  level \<open>SIZE\<close> that asks for both returns \<open>true\<close>, stores the blob the optimizer left
  (here \<open>[1, 2, 3, 4]\<close>) in the IR output and the text cross-compiled from it in the
  secondary-language output; a call that asks for the secondary-language text alone
  gets that text as well.
\<close>

theorem optimizer_failure_outputs_counterexample:
  "process (stub_env False) (stub_processor SIZE) ''void main(){}'' stub_config
     None (Some []) (Some []) =
   Inr (True, \<lparr>mGlslOutput = None, mSpirvOutput = Some [1, 2, 3, 4],
               mMslOutput = Some ''kernel void main0(){}\<newline>'',
               events = [FrontEndParse, FrontEndLink, LowerToSpirv,
                         OptimizerRun (createOptimizer SIZE stub_config),
                         LogError ''SPIR-V optimizer pass failed'', CompileMSL]\<rparr>)
   \<and> process (stub_env False) (stub_processor SIZE) ''void main(){}'' stub_config
     None None (Some []) =
   Inr (True, \<lparr>mGlslOutput = None, mSpirvOutput = None,
               mMslOutput = Some ''kernel void main0(){}\<newline>'',
               events = [FrontEndParse, FrontEndLink, LowerToSpirv,
                         OptimizerRun (createOptimizer SIZE stub_config),
                         LogError ''SPIR-V optimizer pass failed'', CompileMSL]\<rparr>)"
  by code_simp

text \<open>
  C5, amended. Take a call at level \<open>SIZE\<close> or \<open>PERFORMANCE\<close> in which the front end
  accepts the shader and the optimizer run reports failure, leaving the blob \<open>blob\<close>;
  any of the three outputs may be asked for or not. The failure is logged, the
  dead-object remap is left out, and every output that is asked for is still produced
  from \<open>blob\<close>: the IR output receives \<open>blob\<close>, the secondary-language text is
  cross-compiled from it and compacted by \<open>shrinkString\<close>, the shading-language text is
  cross-compiled from it, compacted and minified. The call returns exactly when each
  cross-compiled text that is asked for is empty or ends with a newline (on any other
  text \<open>shrinkString\<close> reads past the end of the string); whenever it returns, it
  returns \<open>true\<close>. The first part of the statement gives the result of the call in
  full.
\<close>

theorem optimizer_failure_keeps_outputs:
  assumes level: "mOptimization self = SIZE \<or> mOptimization self = PERFORMANCE"
    and parse: "fe_parse env src config (if outputSpirv \<noteq> None then VULKAN else OPENGL)
                  (mOptimization self)"
    and link: "fe_link env src config (if outputSpirv \<noteq> None then VULKAN else OPENGL)"
    and run: "opt_Run env (createOptimizer (mOptimization self) config)
                (fe_GlslangToSpv env src
                   (if shaderType config = VERTEX then EShLangVertex else EShLangFragment)
                   (mGenerateDebugInfo self) []) = (False, blob)"
    and order: "visits_each_entry_once (table_order env)"
  shows
    "let mslText = cross_compileMSL env blob (mslOptionsOf config);
         glslText = cross_compileGLSL env blob (glslOptionsOf config)
                      (if shaderType config \<noteq> VERTEX \<and> es (glslOptionsOf config)
                       then subpassInputToColorLocation config else []);
         result = process env self src config outputGlsl outputSpirv outputMsl
     in result =
          (case (if outputMsl \<noteq> None then map_sum id Some (shrinkString mslText) else Inr None) of
             Inl e \<Rightarrow> Inl e
           | Inr msl \<Rightarrow>
               map_sum id (Pair True)
                 (postProcessGlsl env self
                    \<lparr>mGlslOutput = (if outputGlsl \<noteq> None then Some glslText else None),
                     mSpirvOutput = (if outputSpirv \<noteq> None then Some blob else None),
                     mMslOutput = msl,
                     events = [FrontEndParse, FrontEndLink, LowerToSpirv,
                               OptimizerRun (createOptimizer (mOptimization self) config),
                               LogError ''SPIR-V optimizer pass failed'']
                              @ (if outputMsl \<noteq> None then [CompileMSL] else [])
                              @ (if outputGlsl \<noteq> None then [CompileGLSL] else [])\<rparr>))
      \<and> ((\<exists>r. result = Inr r) \<longleftrightarrow>
            (outputMsl \<noteq> None \<longrightarrow> mslText = [] \<or> last mslText = CHR 0x0A) \<and>
            (outputGlsl \<noteq> None \<longrightarrow> glslText = [] \<or> last glslText = CHR 0x0A))
      \<and> (\<forall>ok st'. result = Inr (ok, st') \<longrightarrow>
            ok
            \<and> mSpirvOutput st' = (if outputSpirv \<noteq> None then Some blob else None)
            \<and> (outputMsl \<noteq> None \<longrightarrow>
                 (\<exists>m. shrinkString mslText = Inr m \<and> mMslOutput st' = Some m))
            \<and> (outputGlsl \<noteq> None \<longrightarrow>
                 (\<exists>g m. shrinkString glslText = Inr g \<and>
                    minifyStructFields (table_order env) g = Some m \<and> mGlslOutput st' = Some m))
            \<and> LogError ''SPIR-V optimizer pass failed'' \<in> set (events st')
            \<and> RemapDCE \<notin> set (events st'))"
proof -
  define mslText where "mslText = cross_compileMSL env blob (mslOptionsOf config)"
  define glslText where "glslText = cross_compileGLSL env blob (glslOptionsOf config)
                      (if shaderType config \<noteq> VERTEX \<and> es (glslOptionsOf config)
                       then subpassInputToColorLocation config else [])"
  define result where "result = process env self src config outputGlsl outputSpirv outputMsl"
  define st where "st = (\<lambda>msl.
                    \<lparr>mGlslOutput = (if outputGlsl \<noteq> None then Some glslText else None),
                     mSpirvOutput = (if outputSpirv \<noteq> None then Some blob else None),
                     mMslOutput = msl,
                     events = [FrontEndParse, FrontEndLink, LowerToSpirv,
                               OptimizerRun (createOptimizer (mOptimization self) config),
                               LogError ''SPIR-V optimizer pass failed'']
                              @ (if outputMsl \<noteq> None then [CompileMSL] else [])
                              @ (if outputGlsl \<noteq> None then [CompileGLSL] else [])\<rparr>)"
  have eq: "result =
          (case (if outputMsl \<noteq> None then map_sum id Some (shrinkString mslText) else Inr None) of
             Inl e \<Rightarrow> Inl e
           | Inr msl \<Rightarrow> map_sum id (Pair True) (postProcessGlsl env self (st msl)))"
    unfolding result_def mslText_def glslText_def st_def
    using level parse link run by (rule process_optimizer_failure)
  have ret: "(\<exists>r. result = Inr r) \<longleftrightarrow>
            (outputMsl \<noteq> None \<longrightarrow> mslText = [] \<or> last mslText = CHR 0x0A) \<and>
            (outputGlsl \<noteq> None \<longrightarrow> glslText = [] \<or> last glslText = CHR 0x0A)"
  proof (cases "outputMsl \<noteq> None \<and> \<not> (mslText = [] \<or> last mslText = CHR 0x0A)")
    case True
    then have "shrinkString mslText = Inl OutOfBounds"
      by (intro shrinkString_runs_past_end) simp_all
    with True eq show ?thesis by simp
  next
    case False
    then obtain msl where
      m: "(if outputMsl \<noteq> None then map_sum id Some (shrinkString mslText) else Inr None) = Inr msl"
      using shrinkString_returns [of mslText] by (cases "outputMsl = None") auto
    have "(\<exists>r. result = Inr r) \<longleftrightarrow> (\<exists>st'. postProcessGlsl env self (st msl) = Inr st')"
      unfolding eq m by (cases "postProcessGlsl env self (st msl)") auto
    also have "\<dots> \<longleftrightarrow> (outputGlsl \<noteq> None \<longrightarrow> glslText = [] \<or> last glslText = CHR 0x0A)"
      unfolding postProcessGlsl_returns [OF order] by (simp add: st_def)
    finally show ?thesis using False by auto
  qed
  have res: "ok \<and> mSpirvOutput st' = (if outputSpirv \<noteq> None then Some blob else None)
            \<and> (outputMsl \<noteq> None \<longrightarrow>
                 (\<exists>m. shrinkString mslText = Inr m \<and> mMslOutput st' = Some m))
            \<and> (outputGlsl \<noteq> None \<longrightarrow>
                 (\<exists>g m. shrinkString glslText = Inr g \<and>
                    minifyStructFields (table_order env) g = Some m \<and> mGlslOutput st' = Some m))
            \<and> LogError ''SPIR-V optimizer pass failed'' \<in> set (events st')
            \<and> RemapDCE \<notin> set (events st')"
    if r: "result = Inr (ok, st')" for ok st'
  proof -
    from r eq obtain msl where
      m: "(if outputMsl \<noteq> None then map_sum id Some (shrinkString mslText) else Inr None) = Inr msl"
      and p: "map_sum id (Pair True) (postProcessGlsl env self (st msl)) = Inr (ok, st')"
      by (auto split: sum.splits)
    from p have ok: ok and post: "postProcessGlsl env self (st msl) = Inr st'"
      by (cases "postProcessGlsl env self (st msl)"; simp)+
    from m have msl: "outputMsl \<noteq> None \<longrightarrow> shrinkString mslText = Inr (the msl) \<and> msl \<noteq> None"
      by (cases "shrinkString mslText") (auto split: if_splits)
    from postProcessGlsl_result [OF post] obtain evs where
      1: "mSpirvOutput st' = mSpirvOutput (st msl)" "mMslOutput st' = msl"
      and 2: "events st' = events (st msl) @ evs" "RemapDCE \<notin> set evs"
      and 3: "case mGlslOutput (st msl) of
                None \<Rightarrow> mGlslOutput st' = None
              | Some glsl \<Rightarrow> \<exists>g m. shrinkString glsl = Inr g \<and>
                  minifyStructFields (table_order env) g = Some m \<and> mGlslOutput st' = Some m"
      by (auto simp: st_def)
    from 1 have a: "mSpirvOutput st' = (if outputSpirv \<noteq> None then Some blob else None)"
      by (simp add: st_def)
    from 1 msl have b: "outputMsl \<noteq> None \<longrightarrow>
                 (\<exists>m. shrinkString mslText = Inr m \<and> mMslOutput st' = Some m)"
      by auto
    from 3 have c: "outputGlsl \<noteq> None \<longrightarrow>
                 (\<exists>g m. shrinkString glslText = Inr g \<and>
                    minifyStructFields (table_order env) g = Some m \<and> mGlslOutput st' = Some m)"
      by (cases outputGlsl) (auto simp: st_def)
    from 2 have d: "LogError ''SPIR-V optimizer pass failed'' \<in> set (events st')"
      "RemapDCE \<notin> set (events st')"
      by (simp_all add: st_def)
    from ok a b c d show ?thesis by blast
  qed
  from eq ret res show ?thesis
    unfolding Let_def mslText_def [symmetric] glslText_def [symmetric] result_def [symmetric]
      st_def by blast
qed

theorem optimizer_failure_keeps_outputs_witness:
  "process (stub_env False) (stub_processor SIZE) ''void main(){}'' stub_config
     (Some []) (Some []) (Some []) =
   Inr (True, \<lparr>mGlslOutput = Some ''void main(){}\<newline>'', mSpirvOutput = Some [1, 2, 3, 4],
               mMslOutput = Some ''kernel void main0(){}\<newline>'',
               events = [FrontEndParse, FrontEndLink, LowerToSpirv,
                         OptimizerRun (createOptimizer SIZE stub_config),
                         LogError ''SPIR-V optimizer pass failed'', CompileMSL, CompileGLSL]\<rparr>)"
proof -
  have hyps: "mOptimization (stub_processor SIZE) = SIZE \<or> mOptimization (stub_processor SIZE) = PERFORMANCE"
    "fe_parse (stub_env False) ''void main(){}'' stub_config
       (if Some ([] :: SpirvBlob) \<noteq> None then VULKAN else OPENGL) (mOptimization (stub_processor SIZE))"
    "fe_link (stub_env False) ''void main(){}'' stub_config
       (if Some ([] :: SpirvBlob) \<noteq> None then VULKAN else OPENGL)"
    "opt_Run (stub_env False) (createOptimizer (mOptimization (stub_processor SIZE)) stub_config)
       (fe_GlslangToSpv (stub_env False) ''void main(){}''
          (if shaderType stub_config = VERTEX then EShLangVertex else EShLangFragment)
          (mGenerateDebugInfo (stub_processor SIZE)) []) = (False, [1, 2, 3, 4])"
    "visits_each_entry_once (table_order (stub_env False))"
    by (simp_all add: stub_env_def stub_processor_def stub_config_def visits_each_entry_once_def)
  from optimizer_failure_keeps_outputs [OF hyps, of "Some []" "Some []"]
  have "process (stub_env False) (stub_processor SIZE) ''void main(){}'' stub_config
          (Some []) (Some []) (Some []) =
        map_sum id (Pair True)
          (postProcessGlsl (stub_env False) (stub_processor SIZE)
             \<lparr>mGlslOutput = Some ''void main(){}\<newline>'', mSpirvOutput = Some [1, 2, 3, 4],
              mMslOutput = Some ''kernel void main0(){}\<newline>'',
              events = [FrontEndParse, FrontEndLink, LowerToSpirv,
                        OptimizerRun (createOptimizer SIZE stub_config),
                        LogError ''SPIR-V optimizer pass failed'', CompileMSL, CompileGLSL]\<rparr>)"
    using stub_shrink_msl
    by (simp add: Let_def stub_env_def stub_processor_def)
  then show ?thesis unfolding stub_postProcess by simp
qed

end
